theory Spec2Isabelle
  imports Complex_Main "HOL-Library.Sublist" "HOL-Library.Log_Nat"
begin

text \<open>
  A model of the audio pipeline of Alter: the capture workers that turn raw audio into
  fixed-size chunks, the speech gate, the transcription engine with its fallback from CUDA to
  the CPU, the lock around inference, and the session's transcript log. Functions keep the
  names of the Python source. What a function raises is a value of its result; what the
  outside world does (the audio stream, the clock, numpy's arithmetic on samples, the
  voice-activity model, the speech-to-text library, the JSON codec, the disk) is a parameter.
\<close>

section \<open>Python numbers\<close>

text \<open>The exceptions of the source, as values. \<open>Exception msg\<close> is one raised by an external
  library, with the text that \<^verbatim>\<open>str(e)\<close> gives.\<close>

datatype error =
  ValueError | ZeroDivisionError | OverflowError | FileNotFoundError | JSONDecodeError |
  Exception string

text \<open>
  A Python \<^verbatim>\<open>float\<close> is an IEEE 754 binary64 number. A finite float is modelled by its value, a
  rational, and every operation rounds its exact result to the nearest float, ties to the
  even significand. \<open>ilog2 x\<close> is the exponent of a positive \<open>x\<close>, the \<open>k\<close> with
  \<open>2 powi k \<le> x < 2 powi (k + 1)\<close>. The floats near \<open>x\<close> are the multiples of \<open>2 powi e\<close>,
  where \<open>e\<close> is the exponent of \<open>x\<close> less 52 and not below -1074 (the subnormal numbers), so
  that the significand has 53 bits.
\<close>

definition round_half_even :: "rat \<Rightarrow> int" where
  "round_half_even x =
     (let f = \<lfloor>x\<rfloor>; d = x - of_int f in
      if d < 1 / 2 then f
      else if 1 / 2 < d then f + 1
      else if even f then f else f + 1)"

definition ilog2 :: "rat \<Rightarrow> int" where
  "ilog2 x =
     (let (a, b) = quotient_of x; d = bitlen a - bitlen b in
      if 2 powi d \<le> x then d else d - 1)"

definition fl64 :: "rat \<Rightarrow> rat" where
  "fl64 x =
     (if x = 0 then 0
      else let e = max (ilog2 \<bar>x\<bar> - 52) (- 1074) in
        of_int (round_half_even (x / 2 powi e)) * 2 powi e)"

text \<open>The result is out of range, and the float is an infinity, when the rounded value
  reaches \<open>2 ^ 1024\<close>.\<close>

definition overflows :: "rat \<Rightarrow> bool" where
  "overflows x \<longleftrightarrow> 2 ^ 1024 \<le> \<bar>fl64 x\<bar>"

text \<open>Python's \<^verbatim>\<open>int(x)\<close> on a finite float: truncation towards zero.\<close>

definition py_int :: "rat \<Rightarrow> int" where
  "py_int q = (if 0 \<le> q then \<lfloor>q\<rfloor> else \<lceil>q\<rceil>)"

text \<open>\<^verbatim>\<open>a / b\<close> on two \<^verbatim>\<open>int\<close>s: the quotient rounded once, \<^verbatim>\<open>ZeroDivisionError\<close> for a zero
  divisor, \<^verbatim>\<open>OverflowError\<close> for a quotient out of range.\<close>

definition true_divide :: "int \<Rightarrow> int \<Rightarrow> error + rat" where
  "true_divide a b =
     (if b = 0 then Inl ZeroDivisionError
      else if overflows (of_int a / of_int b) then Inl OverflowError
      else Inr (fl64 (of_int a / of_int b)))"

text \<open>\<^verbatim>\<open>int(i * x)\<close> for an \<^verbatim>\<open>int\<close> \<open>i\<close> and a finite float \<open>x\<close>: \<open>i\<close> is converted to a
  float, which raises \<^verbatim>\<open>OverflowError\<close> when it is out of range; the product is rounded; a
  product out of range is an infinity, on which \<^verbatim>\<open>int\<close> raises \<^verbatim>\<open>OverflowError\<close>.\<close>

definition int_times_float :: "int \<Rightarrow> rat \<Rightarrow> error + int" where
  "int_times_float i x =
     (if overflows (of_int i) then Inl OverflowError
      else if overflows (fl64 (of_int i) * x) then Inl OverflowError
      else Inr (py_int (fl64 (fl64 (of_int i) * x))))"

section \<open>Audio capture: down-mixing, resampling and chunking (audio/capture.py)\<close>

text \<open>
  Samples are 32-bit floats in the source. The chunker never looks at a sample and is
  polymorphic in the sample type; the arithmetic that numpy does on samples is a parameter
  (below). Readings of \<^verbatim>\<open>time.time()\<close> come from a clock parameter, indexed by the number of
  readings taken so far.
\<close>

record ('a, 't) AudioChunk =
  source :: string
  data :: "'a list"
  timestamp :: 't

text \<open>The attributes of an \<^verbatim>\<open>AudioCapture\<close> that the workers read. \<open>chunk_duration\<close> is the
  number given for it; the float that the object holds is the nearest one,
  \<open>fl64 (chunk_duration cfg)\<close>, which is that number when it is a float already.\<close>

record AudioCapture =
  sample_rate :: int
  chunk_duration :: rat
  chunk_size :: int

text \<open>\<^verbatim>\<open>int(sample_rate * chunk_duration)\<close>, of lines 39 and 160. A duration out of range is an
  infinity: its product with a rate other than zero is an infinity, and with zero it is not a
  number, on which \<^verbatim>\<open>int\<close> raises \<^verbatim>\<open>ValueError\<close>.\<close>

definition chunk_samples :: "int \<Rightarrow> rat \<Rightarrow> error + int" where
  "chunk_samples rate secs =
     (if overflows secs then
        (if overflows (of_int rate) then Inl OverflowError
         else if rate = 0 then Inl ValueError
         else Inl OverflowError)
      else int_times_float rate (fl64 secs))"

text \<open>\<^verbatim>\<open>__init__\<close>: the constructor raises what line 39 raises, and then there is no object.\<close>

definition init :: "int \<Rightarrow> rat \<Rightarrow> error + AudioCapture" where
  "init rate secs =
     (case chunk_samples rate secs of
        Inl e \<Rightarrow> Inl e
      | Inr n \<Rightarrow> Inr \<lparr> sample_rate = rate, chunk_duration = secs, chunk_size = n \<rparr>)"

text \<open>Line 160: \<^verbatim>\<open>target_chunk_samples = int(self.sample_rate * self.chunk_duration)\<close>.\<close>

definition target_chunk_samples :: "AudioCapture \<Rightarrow> error + int" where
  "target_chunk_samples cfg = chunk_samples (sample_rate cfg) (chunk_duration cfg)"

text \<open>Python's slices \<^verbatim>\<open>xs[:k]\<close> and \<^verbatim>\<open>xs[k:]\<close>; a negative bound counts from the end.\<close>

definition slice_to :: "int \<Rightarrow> 'a list \<Rightarrow> 'a list" where
  "slice_to k xs = (if 0 \<le> k then take (nat k) xs else take (length xs - nat (- k)) xs)"

definition slice_from :: "int \<Rightarrow> 'a list \<Rightarrow> 'a list" where
  "slice_from k xs = (if 0 \<le> k then drop (nat k) xs else drop (length xs - nat (- k)) xs)"

text \<open>The state one capture worker acts on: its local carry-over \<^verbatim>\<open>buffer\<close>, the shared
  \<^verbatim>\<open>audio_queue\<close>, and how many clock readings have been taken.\<close>

record ('a, 't) capture_state =
  buffer :: "'a list"
  audio_queue :: "('a, 't) AudioChunk list"
  ticks :: nat

text \<open>
  The inner loop of \<^verbatim>\<open>_read_stream\<close>:
  \<^verbatim>\<open>while len(buffer) >= target_chunk_samples: ...\<close>.
  It does not return when the target is not positive, so it is a partial function:
  \<open>None\<close> stands for a loop that runs forever.
\<close>

partial_function (option) emit_chunks ::
  "(nat \<Rightarrow> 't) \<Rightarrow> string \<Rightarrow> int \<Rightarrow> ('a, 't) capture_state \<Rightarrow> ('a, 't) capture_state option"
where
  "emit_chunks clock src target s =
     (if target \<le> int (length (buffer s)) then
        emit_chunks clock src target
          \<lparr> buffer = slice_from target (buffer s),
            audio_queue = audio_queue s @
              [\<lparr> source = src, data = slice_to target (buffer s), timestamp = clock (ticks s) \<rparr>],
            ticks = Suc (ticks s) \<rparr>
      else Some s)"

text \<open>Lines 179-189: append the block to the carry-over buffer, then emit what is complete.\<close>

definition push_block ::
  "(nat \<Rightarrow> 't) \<Rightarrow> string \<Rightarrow> int \<Rightarrow> 'a list \<Rightarrow> ('a, 't) capture_state \<Rightarrow> ('a, 't) capture_state option"
where
  "push_block clock src target audio s =
     emit_chunks clock src target (s\<lparr> buffer := buffer s @ audio \<rparr>)"

text \<open>Feeding a sequence of blocks, one after the other.\<close>

fun push_blocks ::
  "(nat \<Rightarrow> 't) \<Rightarrow> string \<Rightarrow> int \<Rightarrow> 'a list list \<Rightarrow> ('a, 't) capture_state \<Rightarrow> ('a, 't) capture_state option"
where
  "push_blocks clock src target [] s = Some s"
| "push_blocks clock src target (b # bs) s =
     (case push_block clock src target b s of
        None \<Rightarrow> None
      | Some s' \<Rightarrow> push_blocks clock src target bs s')"


subsection \<open>Down-mixing and resampling (lines 168-177)\<close>

text \<open>
  numpy is a library outside the repository. The model fixes the shapes of its results and
  what it raises here, and takes its arithmetic as a parameter: the mean of one row of 32-bit
  samples; element \<open>k\<close> of \<^verbatim>\<open>np.linspace(start, stop, num)\<close>, a 64-bit float; the value of
  \<^verbatim>\<open>np.interp\<close> at one position, a 64-bit float; and the conversion of one 64-bit float to a
  32-bit one by \<^verbatim>\<open>astype(np.float32)\<close>. \<open>'a\<close> is the type of 32-bit floats and \<open>'p\<close> of 64-bit
  ones.
\<close>

record ('a, 'p) numpy =
  mean_of :: "'a list \<Rightarrow> 'a"
  linspace_at :: "int \<Rightarrow> int \<Rightarrow> nat \<Rightarrow> nat \<Rightarrow> 'p"
  interp_at :: "'p \<Rightarrow> int list \<Rightarrow> 'a list \<Rightarrow> 'p"
  float32 :: "'p \<Rightarrow> 'a"

text \<open>\<^verbatim>\<open>audio.reshape(-1, channels)\<close>: the rows of a matrix with \<open>c\<close> columns; numpy raises
  when the length is not a multiple of \<open>c\<close>.\<close>

function rows :: "nat \<Rightarrow> 'a list \<Rightarrow> 'a list list" where
  "rows c xs = (if c = 0 \<or> xs = [] then [] else take c xs # rows c (drop c xs))"
  by pat_completeness auto
termination
  by (relation "measure (\<lambda>(c, xs). length xs)") auto

definition reshape :: "nat \<Rightarrow> 'a list \<Rightarrow> error + 'a list list" where
  "reshape c xs =
     (if c = 0 then Inl ValueError
      else if length xs mod c \<noteq> 0 then Inl ValueError
      else Inr (rows c xs))"

text \<open>\<^verbatim>\<open>np.linspace(start, stop, num)\<close>: \<open>num\<close> values, and \<^verbatim>\<open>ValueError\<close> for a negative
  \<open>num\<close>.\<close>

definition linspace :: "('a, 'p) numpy \<Rightarrow> int \<Rightarrow> int \<Rightarrow> int \<Rightarrow> error + 'p list" where
  "linspace np start stop num =
     (if num < 0 then Inl ValueError
      else Inr (map (linspace_at np start stop (nat num)) [0..<nat num]))"

text \<open>\<^verbatim>\<open>np.arange(n)\<close>.\<close>

definition arange :: "nat \<Rightarrow> int list" where
  "arange n = map int [0..<n]"

text \<open>\<^verbatim>\<open>np.interp(x, xp, fp)\<close>: one value for each position of \<open>x\<close>, and \<^verbatim>\<open>ValueError\<close> when
  there are no sample points or \<open>xp\<close> and \<open>fp\<close> differ in length.\<close>

definition interp :: "('a, 'p) numpy \<Rightarrow> 'p list \<Rightarrow> int list \<Rightarrow> 'a list \<Rightarrow> error + 'p list" where
  "interp np x xp fp =
     (if fp = [] \<or> length xp \<noteq> length fp then Inl ValueError
      else Inr (map (\<lambda>v. interp_at np v xp fp) x))"

text \<open>Lines 174-175: \<^verbatim>\<open>ratio = self.sample_rate / native_rate\<close> and
  \<^verbatim>\<open>new_length = int(len(audio) * ratio)\<close>, for a block of \<open>n\<close> samples.\<close>

definition new_length :: "int \<Rightarrow> int \<Rightarrow> nat \<Rightarrow> error + int" where
  "new_length target_rate native_rate n =
     (case true_divide target_rate native_rate of
        Inl e \<Rightarrow> Inl e
      | Inr ratio \<Rightarrow> int_times_float (int n) ratio)"

text \<open>Lines 174-177, entered when \<^verbatim>\<open>native_rate != self.sample_rate\<close>.\<close>

definition resample :: "('a, 'p) numpy \<Rightarrow> int \<Rightarrow> int \<Rightarrow> 'a list \<Rightarrow> error + 'a list" where
  "resample np target_rate native_rate audio =
     (case new_length target_rate native_rate (length audio) of
        Inl e \<Rightarrow> Inl e
      | Inr m \<Rightarrow>
          (case linspace np 0 (int (length audio) - 1) m of
             Inl e \<Rightarrow> Inl e
           | Inr indices \<Rightarrow>
               (case interp np indices (arange (length audio)) audio of
                  Inl e \<Rightarrow> Inl e
                | Inr ys \<Rightarrow> Inr (map (float32 np) ys))))"

text \<open>Lines 168-177: what one raw block becomes before it is appended to the buffer.\<close>

definition to_mono :: "('a, 'p) numpy \<Rightarrow> nat \<Rightarrow> 'a list \<Rightarrow> error + 'a list" where
  "to_mono np channels audio =
     (if 1 < channels then
        (case reshape channels audio of Inl e \<Rightarrow> Inl e | Inr m \<Rightarrow> Inr (map (mean_of np) m))
      else Inr audio)"

definition prepare_block ::
  "('a, 'p) numpy \<Rightarrow> AudioCapture \<Rightarrow> int \<Rightarrow> nat \<Rightarrow> 'a list \<Rightarrow> error + 'a list"
where
  "prepare_block np cfg native_rate channels raw =
     (case to_mono np channels raw of
        Inl e \<Rightarrow> Inl e
      | Inr audio \<Rightarrow>
          if native_rate \<noteq> sample_rate cfg then resample np (sample_rate cfg) native_rate audio
          else Inr audio)"

subsection \<open>The capture workers\<close>

text \<open>What happened in one pass of the loop up to \<^verbatim>\<open>stream.read\<close>: something raised, or the
  read returned samples.\<close>

datatype 'a read_result = ReadError | Frames "'a list"

text \<open>One pass of the \<^verbatim>\<open>while self._running\<close> loop of \<^verbatim>\<open>_read_stream\<close>, with the chunk size
  computed before the loop. An exception anywhere in the body is caught; it happens before
  \<^verbatim>\<open>buffer\<close> is assigned, so the state is as it was.\<close>

definition read_iteration ::
  "('a, 'p) numpy \<Rightarrow> (nat \<Rightarrow> 't) \<Rightarrow> AudioCapture \<Rightarrow> int \<Rightarrow> string \<Rightarrow> int \<Rightarrow> nat \<Rightarrow>
   'a read_result \<Rightarrow> ('a, 't) capture_state \<Rightarrow> ('a, 't) capture_state option"
where
  "read_iteration np clock cfg target src native_rate channels rd s =
     (case rd of
        ReadError \<Rightarrow> Some s
      | Frames raw \<Rightarrow>
          (case prepare_block np cfg native_rate channels raw of
             Inl e \<Rightarrow> Some s
           | Inr audio \<Rightarrow> push_block clock src target audio s))"

text \<open>The loop over the reads that happen while \<^verbatim>\<open>_running\<close> stays set.\<close>

fun read_loop ::
  "('a, 'p) numpy \<Rightarrow> (nat \<Rightarrow> 't) \<Rightarrow> AudioCapture \<Rightarrow> int \<Rightarrow> string \<Rightarrow> int \<Rightarrow> nat \<Rightarrow>
   'a read_result list \<Rightarrow> ('a, 't) capture_state \<Rightarrow> ('a, 't) capture_state option"
where
  "read_loop np clock cfg target src native_rate channels [] s = Some s"
| "read_loop np clock cfg target src native_rate channels (rd # rds) s =
     (case read_iteration np clock cfg target src native_rate channels rd s of
        None \<Rightarrow> None
      | Some s' \<Rightarrow> read_loop np clock cfg target src native_rate channels rds s')"

text \<open>\<^verbatim>\<open>_read_stream\<close>: the buffer starts empty; line 160 is outside the \<^verbatim>\<open>try\<close>, so what it
  raises leaves the function. The result is \<open>None\<close> when the function does not return,
  \<open>Some (Inl e)\<close> when it raises and \<open>Some (Inr s)\<close> when it returns in state \<open>s\<close>.\<close>

definition read_stream ::
  "('a, 'p) numpy \<Rightarrow> (nat \<Rightarrow> 't) \<Rightarrow> AudioCapture \<Rightarrow> string \<Rightarrow> int \<Rightarrow> nat \<Rightarrow>
   'a read_result list \<Rightarrow> ('a, 't) capture_state \<Rightarrow> (error + ('a, 't) capture_state) option"
where
  "read_stream np clock cfg src native_rate channels rds s =
     (case target_chunk_samples cfg of
        Inl e \<Rightarrow> Some (Inl e)
      | Inr target \<Rightarrow>
          map_option Inr
            (read_loop np clock cfg target src native_rate channels rds (s\<lparr> buffer := [] \<rparr>)))"

text \<open>\<^verbatim>\<open>time.sleep(secs)\<close> raises \<^verbatim>\<open>ValueError\<close> for a negative length. CPython first converts
  the length to its clock type and raises \<^verbatim>\<open>OverflowError\<close> when it does not fit; which lengths
  do not fit is the parameter \<open>too_long\<close>.\<close>

definition time_sleep :: "(rat \<Rightarrow> bool) \<Rightarrow> rat \<Rightarrow> error option" where
  "time_sleep too_long secs =
     (if too_long secs then Some OverflowError
      else if secs < 0 then Some ValueError
      else None)"

text \<open>\<^verbatim>\<open>_dummy_stream\<close>, for a given number of passes, with the state it leaves and what it
  raised, if anything: \<^verbatim>\<open>np.zeros(self.chunk_size)\<close> raises on a negative size, and
  \<^verbatim>\<open>time.sleep(self.chunk_duration)\<close> raises after the chunk has been queued; nothing catches
  either.\<close>

fun dummy_stream ::
  "(rat \<Rightarrow> bool) \<Rightarrow> (nat \<Rightarrow> 't) \<Rightarrow> AudioCapture \<Rightarrow> string \<Rightarrow> nat \<Rightarrow>
   ('a :: zero, 't) capture_state \<Rightarrow> error option \<times> ('a, 't) capture_state"
where
  "dummy_stream too_long clock cfg src 0 s = (None, s)"
| "dummy_stream too_long clock cfg src (Suc k) s =
     (if chunk_size cfg < 0 then (Some ValueError, s)
      else
        let s' = s\<lparr> audio_queue := audio_queue s @
                       [\<lparr> source = src, data = replicate (nat (chunk_size cfg)) 0,
                          timestamp = clock (ticks s) \<rparr>],
                     ticks := Suc (ticks s) \<rparr>
        in case time_sleep too_long (fl64 (chunk_duration cfg)) of
             Some e \<Rightarrow> (Some e, s')
           | None \<Rightarrow> dummy_stream too_long clock cfg src k s')"

section \<open>Speech gate (transcription/vad.py)\<close>

text \<open>
  The voice-activity model is external. It is a value of an arbitrary type \<open>'m\<close> (its recurrent
  state) together with a scoring function: given the model, a window and the sample rate, the
  call \<^verbatim>\<open>self._model(window, self.sample_rate).item()\<close> either raises or returns a confidence,
  and leaves the model in a new state. Confidences and the threshold are floats in the source
  and are only compared; the model uses rationals for them.
\<close>

type_synonym ('m, 'a) scorer = "'m \<Rightarrow> 'a list \<Rightarrow> int \<Rightarrow> (error + rat) \<times> 'm"

record 'm VoiceActivityDetector =
  threshold :: rat
  vad_sample_rate :: int
  vad_model :: "'m option"

text \<open>\<^verbatim>\<open>_load_model\<close>: \<open>hub\<close> is what \<^verbatim>\<open>torch.hub.load\<close> would do now, \<open>None\<close> when it raises.\<close>

definition vad_load_model :: "'m option \<Rightarrow> 'm VoiceActivityDetector \<Rightarrow> 'm VoiceActivityDetector" where
  "vad_load_model hub v =
     (if vad_model v \<noteq> None then v
      else case hub of None \<Rightarrow> v | Some m \<Rightarrow> v\<lparr> vad_model := Some m \<rparr>)"

definition window_size :: int where
  "window_size = 512"

text \<open>Python's \<^verbatim>\<open>range(i, stop, step)\<close> for a positive step.\<close>

function py_range :: "int \<Rightarrow> int \<Rightarrow> int \<Rightarrow> int list" where
  "py_range i stop step = (if 0 < step \<and> i < stop then i # py_range (i + step) stop step else [])"
  by pat_completeness auto
termination
  by (relation "measure (\<lambda>(i, stop, step). nat (stop - i))") auto

text \<open>The slice \<^verbatim>\<open>xs[i : j]\<close> for \<open>0 \<le> i\<close>.\<close>

definition slice :: "int \<Rightarrow> int \<Rightarrow> 'a list \<Rightarrow> 'a list" where
  "slice i j xs = take (nat (j - i)) (drop (nat i) xs)"

text \<open>The window starts of the scan: \<^verbatim>\<open>range(0, len(tensor) - window_size, window_size)\<close>.\<close>

definition window_starts :: "'a list \<Rightarrow> int list" where
  "window_starts tensor = py_range 0 (int (length tensor) - window_size) window_size"

text \<open>The \<^verbatim>\<open>for i in range(...)\<close> loop of \<^verbatim>\<open>contains_speech\<close> over the window starts that are
  left: \<open>Inr True\<close> is the early \<^verbatim>\<open>return True\<close>, \<open>Inr False\<close> the loop running out, \<open>Inl e\<close> an
  exception of the model.\<close>

fun scan_windows ::
  "('m, 'a) scorer \<Rightarrow> rat \<Rightarrow> int \<Rightarrow> 'a list \<Rightarrow> int list \<Rightarrow> 'm \<Rightarrow> (error + bool) \<times> 'm"
where
  "scan_windows score th sr tensor [] m = (Inr False, m)"
| "scan_windows score th sr tensor (i # starts) m =
     (case score m (slice i (i + window_size) tensor) sr of
        (Inl e, m') \<Rightarrow> (Inl e, m')
      | (Inr confidence, m') \<Rightarrow>
          if th < confidence then (Inr True, m')
          else scan_windows score th sr tensor starts m')"

definition contains_speech ::
  "'m option \<Rightarrow> ('m, 'a) scorer \<Rightarrow> 'm VoiceActivityDetector \<Rightarrow> 'a list \<Rightarrow>
   bool \<times> 'm VoiceActivityDetector"
where
  "contains_speech hub score v audio =
     (let v1 = vad_load_model hub v in
      case vad_model v1 of
        None \<Rightarrow> (True, v1)
      | Some m \<Rightarrow>
          (case scan_windows score (threshold v1) (vad_sample_rate v1) audio
                  (window_starts audio) m of
             (Inl e, m') \<Rightarrow> (True, v1\<lparr> vad_model := Some m' \<rparr>)
           | (Inr b, m') \<Rightarrow> (b, v1\<lparr> vad_model := Some m' \<rparr>)))"

section \<open>Transcription engine (transcription/engine.py)\<close>

text \<open>
  Strings are lists of characters with code points below 256. \<^verbatim>\<open>str.strip()\<close> removes the
  characters for which \<^verbatim>\<open>str.isspace()\<close> holds, and \<^verbatim>\<open>str.lower()\<close> maps the upper-case
  letters of that range to lower case.
\<close>

definition isspace :: "char \<Rightarrow> bool" where
  "isspace c = (let n = (of_char c :: nat) in (9 \<le> n \<and> n \<le> 13) \<or> (28 \<le> n \<and> n \<le> 32) \<or> n = 133 \<or> n = 160)"

definition strip :: "string \<Rightarrow> string" where
  "strip s = rev (dropWhile isspace (rev (dropWhile isspace s)))"

definition lower_char :: "char \<Rightarrow> char" where
  "lower_char c =
     (let n = (of_char c :: nat) in
      if (65 \<le> n \<and> n \<le> 90) \<or> (192 \<le> n \<and> n \<le> 222 \<and> n \<noteq> 215) then char_of (n + 32) else c)"

definition lower :: "string \<Rightarrow> string" where
  "lower s = map lower_char s"

text \<open>\<^verbatim>\<open>needle in haystack\<close> on strings.\<close>

fun contains :: "string \<Rightarrow> string \<Rightarrow> bool" where
  "contains needle [] = (needle = [])"
| "contains needle (c # cs) = (prefix needle (c # cs) \<or> contains needle cs)"

text \<open>\<^verbatim>\<open>sep.join(xs)\<close>.\<close>

fun join :: "string \<Rightarrow> string list \<Rightarrow> string" where
  "join sep [] = []"
| "join sep [x] = x"
| "join sep (x # y # ys) = x @ sep @ join sep (y # ys)"

record 't TranscriptSegment =
  speaker :: string
  "text" :: string
  seg_timestamp :: 't
  duration :: rat

text \<open>A loaded \<^verbatim>\<open>WhisperModel\<close> is known by the arguments it was constructed with.\<close>

record WhisperModel =
  wm_name :: string
  wm_device :: string
  wm_compute_type :: string

text \<open>What \<^verbatim>\<open>self._model.transcribe(...)\<close> and the iteration over its segments do: raise an
  exception with a message, or yield the texts of the segments.\<close>

datatype stt_result = Raise string | Fragments "string list"

text \<open>A log of the calls made to the speech-to-text library: constructing a model on a device
  with a compute type, and running inference on the model of a device. The source keeps no
  such log; the model keeps it to state which backend a call used.\<close>

datatype backend_call = Construct string string | Transcribe string

fun call_device :: "backend_call \<Rightarrow> string" where
  "call_device (Construct d c) = d"
| "call_device (Transcribe d) = d"

text \<open>The external world, as oracles indexed by the number of backend calls made so far:
  whether \<^verbatim>\<open>torch.hub.load\<close> yields a model, how the voice-activity model scores, whether the
  \<^verbatim>\<open>WhisperModel\<close> constructor succeeds, and what inference does.\<close>

record ('m, 'a) world =
  hub_load :: "nat \<Rightarrow> 'm option"
  vad_score :: "('m, 'a) scorer"
  whisper_model :: "nat \<Rightarrow> string \<Rightarrow> string \<Rightarrow> string \<Rightarrow> bool"
  transcribe :: "nat \<Rightarrow> WhisperModel \<Rightarrow> 'a list \<Rightarrow> string \<Rightarrow> stt_result"

text \<open>The engine. The callback \<^verbatim>\<open>_on_transcript\<close>, when set, returns (\<open>None\<close>) or raises an
  exception with a message; \<open>calls\<close> is the log of backend calls.\<close>

record ('m, 't) TranscriptionEngine =
  model_name :: string
  device :: string
  compute_type :: string
  language :: string
  engine_sample_rate :: int
  model :: "WhisperModel option"
  vad :: "'m VoiceActivityDetector"
  on_transcript :: "('t TranscriptSegment \<Rightarrow> string option) option"
  calls :: "backend_call list"

definition fallback_to_cpu ::
  "('m, 'a) world \<Rightarrow> ('m, 't) TranscriptionEngine \<Rightarrow> ('m, 't) TranscriptionEngine"
where
  "fallback_to_cpu w e =
     (let e1 = e\<lparr> device := ''cpu'', compute_type := ''int8'', model := None \<rparr>;
          ok = whisper_model w (length (calls e1)) (model_name e1) ''cpu'' ''int8'';
          e2 = e1\<lparr> calls := calls e1 @ [Construct ''cpu'' ''int8''] \<rparr>
      in if ok then
           e2\<lparr> model := Some \<lparr> wm_name = model_name e1, wm_device = ''cpu'', wm_compute_type = ''int8'' \<rparr> \<rparr>
         else e2\<lparr> model := None \<rparr>)"

definition load_model ::
  "('m, 'a) world \<Rightarrow> ('m, 't) TranscriptionEngine \<Rightarrow> ('m, 't) TranscriptionEngine"
where
  "load_model w e =
     (if model e \<noteq> None then e
      else
        let ok = whisper_model w (length (calls e)) (model_name e) (device e) (compute_type e);
            e1 = e\<lparr> calls := calls e @ [Construct (device e) (compute_type e)] \<rparr>
        in if ok then
             e1\<lparr> model := Some \<lparr> wm_name = model_name e, wm_device = device e,
                                 wm_compute_type = compute_type e \<rparr> \<rparr>
           else if device e = ''cuda'' then fallback_to_cpu w e1
           else e1)"

text \<open>The test of the exception handler:
  \<^verbatim>\<open>"cublas" in error_msg.lower() or "cuda" in error_msg.lower()\<close>.\<close>

definition backend_fault :: "string \<Rightarrow> bool" where
  "backend_fault error_msg \<longleftrightarrow> contains ''cublas'' (lower error_msg) \<or> contains ''cuda'' (lower error_msg)"

text \<open>The loop over the segments: strip each text and keep the non-empty ones.\<close>

fun collect_texts :: "string list \<Rightarrow> string list" where
  "collect_texts [] = []"
| "collect_texts (seg # segs) =
     (let t = strip seg in if t \<noteq> [] then t # collect_texts segs else collect_texts segs)"

text \<open>The body of the \<^verbatim>\<open>try\<close> block, lines 147-179, for the loaded model \<open>m\<close> at time \<open>k\<close>:
  \<open>Inl msg\<close> is an exception that reaches the handler, \<open>Inr r\<close> a \<^verbatim>\<open>return r\<close>.\<close>

definition transcribe_body ::
  "('m, 'a) world \<Rightarrow> ('m, 't) TranscriptionEngine \<Rightarrow> nat \<Rightarrow> WhisperModel \<Rightarrow> ('a, 't) AudioChunk \<Rightarrow>
   string + 't TranscriptSegment option"
where
  "transcribe_body w e k m chunk =
     (case transcribe w k m (data chunk) (language e) of
        Raise msg \<Rightarrow> Inl msg
      | Fragments segments \<Rightarrow>
          let texts = collect_texts segments in
          if texts = [] then Inr None
          else if engine_sample_rate e = 0 then Inl ''division by zero''
          else
            let result = \<lparr> speaker = source chunk, text = join '' '' texts,
                            seg_timestamp = timestamp chunk,
                            duration = of_nat (length (data chunk)) / of_int (engine_sample_rate e) \<rparr>
            in case on_transcript e of
                 None \<Rightarrow> Inr (Some result)
               | Some callback \<Rightarrow>
                   (case callback result of
                      Some msg \<Rightarrow> Inl msg
                    | None \<Rightarrow> Inr (Some result)))"

text \<open>Lines 137-144, up to the \<^verbatim>\<open>try\<close> block: \<open>Inl e'\<close> is an early \<^verbatim>\<open>return None\<close> that
  leaves the engine as \<open>e'\<close>, \<open>Inr (e1, m)\<close> enters the block with the engine as \<open>e1\<close> and
  the loaded model \<open>m\<close>.\<close>

definition enter_try ::
  "('m, 'a) world \<Rightarrow> ('m, 't) TranscriptionEngine \<Rightarrow> ('a, 't) AudioChunk \<Rightarrow>
   ('m, 't) TranscriptionEngine + ('m, 't) TranscriptionEngine \<times> WhisperModel"
where
  "enter_try w e chunk =
     (case contains_speech (hub_load w (length (calls e))) (vad_score w) (vad e) (data chunk) of
        (speech, v) \<Rightarrow>
          let e0 = e\<lparr> vad := v \<rparr> in
          if \<not> speech then Inl e0
          else
            let e1 = load_model w e0 in
            case model e1 of
              None \<Rightarrow> Inl e1
            | Some m \<Rightarrow> Inr (e1, m))"

definition transcribe_chunk ::
  "('m, 'a) world \<Rightarrow> ('m, 't) TranscriptionEngine \<Rightarrow> ('a, 't) AudioChunk \<Rightarrow>
   't TranscriptSegment option \<times> ('m, 't) TranscriptionEngine"
where
  "transcribe_chunk w e chunk =
     (case enter_try w e chunk of
        Inl e' \<Rightarrow> (None, e')
      | Inr (e1, m) \<Rightarrow>
          let e2 = e1\<lparr> calls := calls e1 @ [Transcribe (wm_device m)] \<rparr> in
          (case transcribe_body w e1 (length (calls e1)) m chunk of
             Inr r \<Rightarrow> (r, e2)
           | Inl error_msg \<Rightarrow>
               (None, if backend_fault error_msg then fallback_to_cpu w e2 else e2)))"

text \<open>A run of calls, one chunk after the other; the results in call order.\<close>

fun transcribe_chunks ::
  "('m, 'a) world \<Rightarrow> ('m, 't) TranscriptionEngine \<Rightarrow> ('a, 't) AudioChunk list \<Rightarrow>
   't TranscriptSegment option list \<times> ('m, 't) TranscriptionEngine"
where
  "transcribe_chunks w e [] = ([], e)"
| "transcribe_chunks w e (chunk # chunks) =
     (case transcribe_chunk w e chunk of
        (r, e') \<Rightarrow> (case transcribe_chunks w e' chunks of (rs, e'') \<Rightarrow> (r # rs, e'')))"

text \<open>The engine is on the fallback backend: its device is the CPU and so is the device of
  the model it holds, if it holds one.\<close>

definition cpu_only :: "('m, 't) TranscriptionEngine \<Rightarrow> bool" where
  "cpu_only e \<longleftrightarrow>
     device e = ''cpu'' \<and> (case model e of None \<Rightarrow> True | Some m \<Rightarrow> wm_device m = ''cpu'')"

section \<open>Session manager and transcript log (session/manager.py)\<close>

record SessionMetadata =
  session_id :: string
  name :: string
  created_at :: string
  updated_at :: string
  mic_device :: string
  speaker_device :: string

text \<open>The dictionary \<^verbatim>\<open>{"speaker": ..., "text": ..., "timestamp": ...}\<close>.\<close>

record 't transcript_entry =
  entry_speaker :: string
  entry_text :: string
  entry_timestamp :: 't

record 't SessionManager =
  current_session :: "SessionMetadata option"
  transcript_log :: "'t transcript_entry list"

text \<open>The disk under \<^verbatim>\<open>sessions_dir\<close>: which session directories exist, and the text of each file,
  addressed by session id and file name.\<close>

record disk =
  is_dir :: "string \<Rightarrow> bool"
  files :: "string \<times> string \<Rightarrow> string option"

text \<open>
  What the standard library and the platform contribute: \<^verbatim>\<open>json.dumps(entry, ensure_ascii=False)\<close>,
  \<^verbatim>\<open>json.loads\<close> (\<open>None\<close> when it raises), the text \<^verbatim>\<open>json.dump\<close> writes for the metadata,
  \<^verbatim>\<open>os.linesep\<close>, and \<^verbatim>\<open>datetime.now().isoformat()\<close> as a function of the number of log entries
  so far.
\<close>

record 't platform =
  dumps :: "'t transcript_entry \<Rightarrow> string"
  loads :: "string \<Rightarrow> 't transcript_entry option"
  dump_metadata :: "SessionMetadata \<Rightarrow> string"
  linesep :: string
  now_iso :: "nat \<Rightarrow> string"

definition LF :: char where
  "LF = CHR 0x0A"

definition CR :: char where
  "CR = CHR 0x0D"

text \<open>Writing in text mode: every \<^verbatim>\<open>"\n"\<close> becomes the platform's line separator.\<close>

definition write_text :: "string \<Rightarrow> string \<Rightarrow> string" where
  "write_text sep s = concat (map (\<lambda>c. if c = LF then sep else [c]) s)"

text \<open>Iterating over a file opened in text mode (universal newlines): a line ends at
  \<^verbatim>\<open>"\n"\<close>, \<^verbatim>\<open>"\r\n"\<close> or \<^verbatim>\<open>"\r"\<close>, each read as \<^verbatim>\<open>"\n"\<close>; the last line may have no end.\<close>

fun readlines :: "string \<Rightarrow> string list" where
  "readlines [] = []"
| "readlines (c # cs) =
     (if c = CR then
        (case cs of
           [] \<Rightarrow> [[LF]]
         | d # ds \<Rightarrow> if d = LF then [LF] # readlines ds else [LF] # readlines (d # ds))
      else if c = LF then [LF] # readlines cs
      else
        (case readlines cs of
           [] \<Rightarrow> [[c]]
         | l # ls \<Rightarrow> (c # l) # ls))"

definition save_metadata :: "'t platform \<Rightarrow> SessionMetadata \<Rightarrow> disk \<Rightarrow> disk \<times> error option" where
  "save_metadata io metadata d =
     (if \<not> is_dir d (session_id metadata) then (d, Some FileNotFoundError)
      else
        (d\<lparr> files := (files d)((session_id metadata, ''metadata.json'') \<mapsto>
                 write_text (linesep io) (dump_metadata io metadata)) \<rparr>, None))"

definition append_to_log ::
  "'t platform \<Rightarrow> string \<Rightarrow> 't transcript_entry \<Rightarrow> 't SessionManager \<Rightarrow> disk \<Rightarrow> disk \<times> error option"
where
  "append_to_log io filename entry mgr d =
     (case current_session mgr of
        None \<Rightarrow> (d, None)
      | Some session \<Rightarrow>
          if \<not> is_dir d (session_id session) then (d, Some FileNotFoundError)
          else
            let log_path = (session_id session, filename);
                old = (case files d log_path of None \<Rightarrow> [] | Some content \<Rightarrow> content)
            in (d\<lparr> files := (files d)(log_path \<mapsto> old @ write_text (linesep io) (dumps io entry @ [LF])) \<rparr>,
                None))"

definition update_timestamp ::
  "'t platform \<Rightarrow> string \<Rightarrow> 't SessionManager \<Rightarrow> disk \<Rightarrow> ('t SessionManager \<times> disk) \<times> error option"
where
  "update_timestamp io now mgr d =
     (case current_session mgr of
        None \<Rightarrow> ((mgr, d), None)
      | Some session \<Rightarrow>
          let session' = session\<lparr> updated_at := now \<rparr>;
              mgr' = mgr\<lparr> current_session := Some session' \<rparr>
          in case save_metadata io session' d of (d', err) \<Rightarrow> ((mgr', d'), err))"

text \<open>\<^verbatim>\<open>add_transcript\<close>. The second component is the exception that leaves the call, if any;
  the state is what the call has done up to there.\<close>

definition add_transcript ::
  "'t platform \<Rightarrow> string \<Rightarrow> string \<Rightarrow> 't \<Rightarrow> 't SessionManager \<times> disk \<Rightarrow>
   ('t SessionManager \<times> disk) \<times> error option"
where
  "add_transcript io spk txt ts st =
     (case st of (mgr, d) \<Rightarrow>
        let entry = \<lparr> entry_speaker = spk, entry_text = txt, entry_timestamp = ts \<rparr>;
            now = now_iso io (length (transcript_log mgr));
            mgr1 = mgr\<lparr> transcript_log := transcript_log mgr @ [entry] \<rparr>
        in if current_session mgr1 \<noteq> None then
             (case append_to_log io ''transcript.jsonl'' entry mgr1 d of
                (d1, Some err) \<Rightarrow> ((mgr1, d1), Some err)
              | (d1, None) \<Rightarrow> update_timestamp io now mgr1 d1)
           else ((mgr1, d), None))"

text \<open>Appending segments one after the other; an exception ends the run.\<close>

fun add_transcripts ::
  "'t platform \<Rightarrow> 't transcript_entry list \<Rightarrow> 't SessionManager \<times> disk \<Rightarrow>
   ('t SessionManager \<times> disk) \<times> error option"
where
  "add_transcripts io [] st = (st, None)"
| "add_transcripts io (e # es) st =
     (case add_transcript io (entry_speaker e) (entry_text e) (entry_timestamp e) st of
        (st', Some err) \<Rightarrow> (st', Some err)
      | (st', None) \<Rightarrow> add_transcripts io es st')"

text \<open>The loop of \<^verbatim>\<open>_load_transcript\<close> over the lines of the file.\<close>

fun parse_lines :: "'t platform \<Rightarrow> string list \<Rightarrow> error + 't transcript_entry list" where
  "parse_lines io [] = Inr []"
| "parse_lines io (l # ls) =
     (let line = strip l in
      if line \<noteq> [] then
        (case loads io line of
           None \<Rightarrow> Inl JSONDecodeError
         | Some e \<Rightarrow> (case parse_lines io ls of Inl err \<Rightarrow> Inl err | Inr es \<Rightarrow> Inr (e # es)))
      else parse_lines io ls)"

definition load_transcript :: "'t platform \<Rightarrow> disk \<Rightarrow> string \<Rightarrow> error + 't transcript_entry list" where
  "load_transcript io d sid =
     (case files d (sid, ''transcript.jsonl'') of
        None \<Rightarrow> Inr []
      | Some content \<Rightarrow> parse_lines io (readlines content))"

section \<open>Concurrent calls of \<^verbatim>\<open>transcribe_chunk\<close> on one engine\<close>

text \<open>
  Each call runs in a thread of its own and moves through the program points of
  \<^verbatim>\<open>transcribe_chunk\<close>: the speech gate (line 138), \<^verbatim>\<open>load_model\<close> (142), waiting for
  \<^verbatim>\<open>self._lock\<close> (147), the call of the speech-to-text library and the iteration over its
  segments (148-161), the rest of the \<^verbatim>\<open>with\<close> block (163-179), the exception handler
  (181-189), and the return. The engine has one lock; \<^verbatim>\<open>with self._lock\<close> takes it when it is
  free and gives it back however the block is left. \<open>active\<close> counts the calls of the library
  in progress and \<open>high_water\<close> is the largest value it has had.
\<close>

datatype pc = AtGate | AtLoad | AtLock | Invoking | Building | Handler | Returned

record pool =
  pcs :: "pc list"
  locked :: bool
  active :: nat
  high_water :: nat

definition move :: "nat \<Rightarrow> pc \<Rightarrow> pool \<Rightarrow> pool" where
  "move i p s = s\<lparr> pcs := (pcs s)[i := p] \<rparr>"

inductive pool_step :: "pool \<Rightarrow> pool \<Rightarrow> bool" where
  gate_speech: "i < length (pcs s) \<Longrightarrow> pcs s ! i = AtGate \<Longrightarrow> pool_step s (move i AtLoad s)"
| gate_silence: "i < length (pcs s) \<Longrightarrow> pcs s ! i = AtGate \<Longrightarrow> pool_step s (move i Returned s)"
| load_done: "i < length (pcs s) \<Longrightarrow> pcs s ! i = AtLoad \<Longrightarrow> pool_step s (move i AtLock s)"
| load_failed: "i < length (pcs s) \<Longrightarrow> pcs s ! i = AtLoad \<Longrightarrow> pool_step s (move i Returned s)"
| acquire: "i < length (pcs s) \<Longrightarrow> pcs s ! i = AtLock \<Longrightarrow> \<not> locked s \<Longrightarrow>
     pool_step s (move i Invoking
       (s\<lparr> locked := True, active := active s + 1,
           high_water := max (high_water s) (active s + 1) \<rparr>))"
| invoke_done: "i < length (pcs s) \<Longrightarrow> pcs s ! i = Invoking \<Longrightarrow>
     pool_step s (move i Building (s\<lparr> active := active s - 1 \<rparr>))"
| invoke_raise: "i < length (pcs s) \<Longrightarrow> pcs s ! i = Invoking \<Longrightarrow>
     pool_step s (move i Handler (s\<lparr> locked := False, active := active s - 1 \<rparr>))"
| build_done: "i < length (pcs s) \<Longrightarrow> pcs s ! i = Building \<Longrightarrow>
     pool_step s (move i Returned (s\<lparr> locked := False \<rparr>))"
| build_raise: "i < length (pcs s) \<Longrightarrow> pcs s ! i = Building \<Longrightarrow>
     pool_step s (move i Handler (s\<lparr> locked := False \<rparr>))"
| handled: "i < length (pcs s) \<Longrightarrow> pcs s ! i = Handler \<Longrightarrow> pool_step s (move i Returned s)"

text \<open>The states that \<open>n\<close> concurrent calls can reach.\<close>

inductive reachable :: "nat \<Rightarrow> pool \<Rightarrow> bool" where
  start: "reachable n \<lparr> pcs = replicate n AtGate, locked = False, active = 0, high_water = 0 \<rparr>"
| after: "reachable n s \<Longrightarrow> pool_step s s' \<Longrightarrow> reachable n s'"

text \<open>The invariant of the lock: the calls inside the \<^verbatim>\<open>with\<close> block are one when the lock is
  taken and none when it is free, \<open>active\<close> is the number of calls at the library call, and
  the high-water mark is at most one.\<close>

definition lock_invariant :: "pool \<Rightarrow> bool" where
  "lock_invariant s \<longleftrightarrow>
     count_list (pcs s) Invoking + count_list (pcs s) Building = (if locked s then 1 else 0)
     \<and> active s = count_list (pcs s) Invoking
     \<and> high_water s \<le> 1"

section \<open>Concrete inputs\<close>





text \<open>A world in which no voice-activity model can be loaded, every model construction
  succeeds, and inference fails with a CUDA error on a CUDA model and on any other yields
  blank fragments for an empty chunk and three fragments otherwise; an engine as \<^verbatim>\<open>TranscriptionEngine()\<close> constructs it; the same engine after
  a fallback; and two chunks.\<close>

definition world0 :: "(unit, rat) world" where
  "world0 = \<lparr> hub_load = (\<lambda>k. None),
              vad_score = (\<lambda>m w sr. (Inr 0, m)),
              whisper_model = (\<lambda>k n d c. True),
              transcribe = (\<lambda>k m samples lang.
                 if wm_device m = ''cuda'' then Raise ''CUDA error: out of memory''
                 else if samples = [] then Fragments ['' '', '''']
                 else Fragments [''Hello'', '''', ''world'']) \<rparr>"

definition engine0 :: "(unit, nat) TranscriptionEngine" where
  "engine0 = \<lparr> model_name = ''large-v3'', device = ''cuda'', compute_type = ''float16'',
               language = ''ja'', engine_sample_rate = 16000, model = None,
               vad = \<lparr> threshold = 1 / 2, vad_sample_rate = 16000, vad_model = None \<rparr>,
               on_transcript = None, calls = [] \<rparr>"

definition cuda_model :: WhisperModel where
  "cuda_model = \<lparr> wm_name = ''large-v3'', wm_device = ''cuda'', wm_compute_type = ''float16'' \<rparr>"

definition cpu_model :: WhisperModel where
  "cpu_model = \<lparr> wm_name = ''large-v3'', wm_device = ''cpu'', wm_compute_type = ''int8'' \<rparr>"

definition engine_cpu :: "(unit, nat) TranscriptionEngine" where
  "engine_cpu = engine0 \<lparr> device := ''cpu'', compute_type := ''int8'', model := Some cpu_model,
       calls := [Construct ''cuda'' ''float16'', Transcribe ''cuda'', Construct ''cpu'' ''int8''] \<rparr>"

definition chunk0 :: "(rat, nat) AudioChunk" where
  "chunk0 = \<lparr> source = ''you'', data = [0, 0, 0, 0], timestamp = 7 \<rparr>"

definition chunk_empty :: "(rat, nat) AudioChunk" where
  "chunk_empty = \<lparr> source = ''target'', data = [], timestamp = 8 \<rparr>"

text \<open>A session with its directory on an otherwise empty disk, two log entries whose
  timestamps are kept as text, and a platform with Windows line ends whose codec writes an
  entry on one line and reads these two entries back.\<close>

definition session0 :: SessionMetadata where
  "session0 = \<lparr> session_id = ''2024-05-01_093000'', name = ''standup'',
       created_at = ''2024-05-01T09:30:00'', updated_at = ''2024-05-01T09:30:00'',
       mic_device = '''', speaker_device = '''' \<rparr>"

definition manager0 :: "string SessionManager" where
  "manager0 = \<lparr> current_session = Some session0, transcript_log = [] \<rparr>"

definition disk0 :: disk where
  "disk0 = \<lparr> is_dir = (\<lambda>sid. sid = ''2024-05-01_093000''), files = Map.empty \<rparr>"

definition entry1 :: "string transcript_entry" where
  "entry1 = \<lparr> entry_speaker = ''you'', entry_text = ''Hello world'', entry_timestamp = ''7.5'' \<rparr>"

definition entry2 :: "string transcript_entry" where
  "entry2 = \<lparr> entry_speaker = ''target'', entry_text = ''  good morning'', entry_timestamp = ''9.5'' \<rparr>"

definition dumps0 :: "string transcript_entry \<Rightarrow> string" where
  "dumps0 e = ''{speaker: '' @ entry_speaker e @ '', text: '' @ entry_text e @
              '', timestamp: '' @ entry_timestamp e @ ''}''"

definition platform0 :: "string platform" where
  "platform0 = \<lparr> dumps = dumps0,
                 loads = map_of [(dumps0 entry1, entry1), (dumps0 entry2, entry2)],
                 dump_metadata = (\<lambda>m. ''{id: '' @ session_id m @ '', updated_at: '' @ updated_at m @ ''}''),
                 linesep = [CR, LF],
                 now_iso = (\<lambda>k. ''2024-05-01T09:31:0'' @ (if k = 0 then ''0'' else ''1'')) \<rparr>"

section \<open>Properties of the float arithmetic\<close>

text \<open>Rounding to the nearest integer: integers are kept, the error is at most one half,
  and the sign is kept.\<close>

lemma round_half_even_of_int: "round_half_even (of_int z) = z"
  by (simp add: round_half_even_def)

lemma round_half_even_cases:
  obtains f where "round_half_even x = f" "of_int f \<le> x" "x - of_int f \<le> 1 / 2"
  | f where "round_half_even x = f + 1" "x < of_int f + 1" "1 / 2 \<le> x - of_int f"
proof -
  define f where "f = \<lfloor>x\<rfloor>"
  have lo: "of_int f \<le> x" and hi: "x < of_int f + 1"
    unfolding f_def by linarith+
  have r: "round_half_even x =
     (if x - of_int f < 1 / 2 then f
      else if 1 / 2 < x - of_int f then f + 1
      else if even f then f else f + 1)"
    by (simp add: round_half_even_def Let_def f_def)
  show thesis
  proof (cases "round_half_even x = f")
    case True
    moreover have "x - of_int f \<le> 1 / 2"
      using True r by (auto split: if_splits)
    ultimately show thesis using lo that(1) by blast
  next
    case False
    then have "round_half_even x = f + 1" and "1 / 2 \<le> x - of_int f"
      using r by (auto split: if_splits)
    then show thesis using hi that(2) by blast
  qed
qed

lemma round_half_even_error: "\<bar>of_int (round_half_even x) - x\<bar> \<le> 1 / 2"
  by (rule round_half_even_cases [of x]) (simp_all add: abs_if)

lemma round_half_even_nonneg: "0 \<le> x \<Longrightarrow> 0 \<le> round_half_even x"
  by (auto simp: round_half_even_def Let_def)

lemma round_half_even_minus: "round_half_even (- x) = - round_half_even x"
proof (cases "x \<in> \<int>")
  case True
  then obtain z where "x = of_int z" by (auto elim: Ints_cases)
  then show ?thesis
    by (simp add: round_half_even_of_int flip: of_int_minus)
next
  case False
  define f where "f = \<lfloor>x\<rfloor>"
  have lo: "of_int f \<le> x" and hi: "x < of_int f + 1"
    unfolding f_def by linarith+
  have ne: "x \<noteq> of_int f"
    using False by (metis Ints_of_int)
  have fm: "\<lfloor>- x\<rfloor> = - f - 1"
    using lo hi ne by (intro floor_unique) simp_all
  have r: "round_half_even x =
     (if x - of_int f < 1 / 2 then f
      else if 1 / 2 < x - of_int f then f + 1
      else if even f then f else f + 1)"
    by (simp add: round_half_even_def Let_def f_def)
  have rm: "round_half_even (- x) =
     (if - x - of_int (- f - 1) < 1 / 2 then - f - 1
      else if 1 / 2 < - x - of_int (- f - 1) then - f - 1 + 1
      else if even (- f - 1) then - f - 1 else - f - 1 + 1)"
    unfolding round_half_even_def Let_def fm by (rule refl)
  show ?thesis
    unfolding r rm by (auto simp: algebra_simps)
qed

lemma abs_round_half_even_le: "\<bar>of_int (round_half_even x) :: rat\<bar> \<le> 2 * \<bar>x\<bar>"
proof -
  have nonneg: "(of_int (round_half_even y) :: rat) \<le> 2 * y" if "0 \<le> y" for y
  proof (cases "y < 1 / 2")
    case True
    with that have "\<lfloor>y\<rfloor> = 0" by (simp add: floor_eq_iff)
    with True that show ?thesis by (simp add: round_half_even_def)
  next
    case False
    have "of_int (round_half_even y) \<le> y + 1 / 2"
      using round_half_even_error [of y] by (simp add: abs_if split: if_splits)
    with False show ?thesis by simp
  qed
  show ?thesis
  proof (cases "0 \<le> x")
    case True
    with nonneg [OF True] round_half_even_nonneg [OF True] show ?thesis by simp
  next
    case False
    then have n: "0 \<le> - x" by simp
    from nonneg [OF n] round_half_even_nonneg [OF n] False show ?thesis
      by (simp add: round_half_even_minus)
  qed
qed


text \<open>The exponent \<open>ilog2 x\<close> of a positive \<open>x\<close> is the one with
  \<open>2 powi ilog2 x \<le> x < 2 powi (ilog2 x + 1)\<close>.\<close>

lemma bitlen_powi:
  assumes "0 < a"
  shows "(2::rat) powi (bitlen a - 1) \<le> of_int a" and "of_int a < (2::rat) powi (bitlen a)"
proof -
  from bitlen_bounds [OF assms]
  have lo: "2 ^ nat (bitlen a - 1) \<le> a" and hi: "a < 2 ^ nat (bitlen a)" by simp_all
  have pos: "1 \<le> bitlen a"
  proof (rule ccontr)
    assume "\<not> 1 \<le> bitlen a"
    then have "nat (bitlen a) = 0" by simp
    with hi assms show False by simp
  qed
  have "(of_int (2 ^ nat (bitlen a - 1)) :: rat) \<le> of_int a"
    using lo by (simp only: of_int_le_iff)
  then show "(2::rat) powi (bitlen a - 1) \<le> of_int a"
    using pos by (simp add: power_int_nonneg_exp)
  have "(of_int a :: rat) < of_int (2 ^ nat (bitlen a))"
    using hi by (simp only: of_int_less_iff)
  then show "of_int a < (2::rat) powi (bitlen a)"
    using pos by (simp add: power_int_nonneg_exp)
qed

lemma ilog2_rough:
  assumes "0 < x" and q: "quotient_of x = (a, b)"
  shows "(2::rat) powi (bitlen a - bitlen b - 1) < x" and "x < (2::rat) powi (bitlen a - bitlen b + 1)"
proof -
  have b: "0 < b" using quotient_of_denom_pos [OF q] .
  have x: "x = of_int a / of_int b" using quotient_of_div [OF q] .
  have a: "0 < a" using assms(1) b x by (simp add: zero_less_divide_iff)
  note A = bitlen_powi [OF a] and B = bitlen_powi [OF b]
  have bq: "(0::rat) < of_int b" using b by simp
  have "(2::rat) powi (bitlen a - bitlen b - 1) * of_int b
      < 2 powi (bitlen a - bitlen b - 1) * 2 powi (bitlen b)"
    using B(2) by (simp add: mult_strict_left_mono)
  also have "\<dots> = 2 powi (bitlen a - 1)"
    by (simp flip: power_int_add)
  also have "\<dots> \<le> of_int a" by (rule A(1))
  finally show "(2::rat) powi (bitlen a - bitlen b - 1) < x"
    unfolding x using bq by (simp add: pos_less_divide_eq)
  have "(of_int a :: rat) < 2 powi (bitlen a)" by (rule A(2))
  also have "\<dots> = 2 powi (bitlen a - bitlen b + 1) * 2 powi (bitlen b - 1)"
    by (simp flip: power_int_add)
  also have "\<dots> \<le> 2 powi (bitlen a - bitlen b + 1) * of_int b"
    using B(1) by (simp add: mult_left_mono)
  finally show "x < (2::rat) powi (bitlen a - bitlen b + 1)"
    unfolding x using bq by (simp add: pos_divide_less_eq)
qed

lemma ilog2_bounds:
  assumes "0 < x"
  shows "2 powi (ilog2 x) \<le> x" and "x < 2 powi (ilog2 x + 1)"
proof -
  obtain a b where q: "quotient_of x = (a, b)" by (cases "quotient_of x")
  note R = ilog2_rough [OF assms q]
  have i: "ilog2 x = (if 2 powi (bitlen a - bitlen b) \<le> x then bitlen a - bitlen b
                      else bitlen a - bitlen b - 1)"
    by (simp add: ilog2_def q Let_def)
  show "2 powi (ilog2 x) \<le> x"
    unfolding i using R(1) by simp
  show "x < 2 powi (ilog2 x + 1)"
    unfolding i using R(2) by (simp add: not_le)
qed

lemma powi_two_less_iff: "(2::rat) powi m < 2 powi n \<longleftrightarrow> m < n"
proof
  assume "m < n"
  then show "(2::rat) powi m < 2 powi n"
    by (rule power_int_strict_increasing) simp
next
  assume l: "(2::rat) powi m < 2 powi n"
  show "m < n"
  proof (rule ccontr)
    assume "\<not> m < n"
    then have "n \<le> m" by simp
    then have "(2::rat) powi n \<le> 2 powi m"
      by (rule power_int_increasing) simp
    with l show False by simp
  qed
qed

lemma powi_two_le_iff: "(2::rat) powi m \<le> 2 powi n \<longleftrightarrow> m \<le> n"
  using powi_two_less_iff [of n m] by (simp add: not_less [symmetric])

lemma ilog2_unique:
  assumes "(2::rat) powi k \<le> x" "x < 2 powi (k + 1)"
  shows "ilog2 x = k"
proof -
  have pos: "0 < x"
    using assms(1) by (rule less_le_trans [OF zero_less_power_int, rotated]) simp
  note B = ilog2_bounds [OF pos]
  have "(2::rat) powi k < 2 powi (ilog2 x + 1)"
    using assms(1) B(2) by simp
  then have 1: "k < ilog2 x + 1"
    by (simp only: powi_two_less_iff)
  have "(2::rat) powi (ilog2 x) < 2 powi (k + 1)"
    using assms(2) B(1) by simp
  then have 2: "ilog2 x < k + 1"
    by (simp only: powi_two_less_iff)
  from 1 2 show ?thesis by simp
qed


text \<open>Rounding to the nearest float: at most a doubling, odd, exact on multiples of the
  spacing, with a relative error of at most \<open>1 / 2 ^ 53\<close> above the subnormal range, and exact
  on integers of at most 53 bits.\<close>

lemma fl64_abs_le: "\<bar>fl64 x\<bar> \<le> 2 * \<bar>x\<bar>"
proof (cases "x = 0")
  case True
  then show ?thesis by (simp add: fl64_def)
next
  case False
  define e where "e = max (ilog2 \<bar>x\<bar> - 52) (- 1074)"
  have p: "(0::rat) < 2 powi e" by simp
  have f: "fl64 x = of_int (round_half_even (x / 2 powi e)) * 2 powi e"
    using False by (simp add: fl64_def Let_def e_def)
  have "\<bar>fl64 x\<bar> = \<bar>of_int (round_half_even (x / 2 powi e)) :: rat\<bar> * 2 powi e"
    unfolding f using p by (simp add: abs_mult)
  also have "\<dots> \<le> (2 * \<bar>x / 2 powi e\<bar>) * 2 powi e"
    using abs_round_half_even_le [of "x / 2 powi e"] p by (simp only: mult_right_mono less_imp_le)
  also have "\<dots> = 2 * \<bar>x\<bar>"
    using p by (simp add: abs_divide)
  finally show ?thesis .
qed

lemma fl64_minus: "fl64 (- x) = - fl64 x"
  by (simp add: fl64_def Let_def round_half_even_minus)


lemma not_overflows: "\<bar>x\<bar> < 2 ^ 1023 \<Longrightarrow> \<not> overflows x"
  using fl64_abs_le [of x] by (simp add: overflows_def)

lemma fl64_exact:
  assumes "x \<noteq> 0" and "x / 2 powi (max (ilog2 \<bar>x\<bar> - 52) (- 1074)) = of_int m"
  shows "fl64 x = x"
proof -
  define e where "e = max (ilog2 \<bar>x\<bar> - 52) (- 1074)"
  have p: "(2::rat) powi e \<noteq> 0" by simp
  have "fl64 x = of_int (round_half_even (x / 2 powi e)) * 2 powi e"
    using assms(1) by (simp add: fl64_def Let_def e_def)
  also have "\<dots> = of_int m * 2 powi e"
    using assms(2) unfolding e_def [symmetric] by (simp only: round_half_even_of_int)
  also have "\<dots> = x"
    using assms(2) p unfolding e_def [symmetric] by (simp add: field_simps)
  finally show ?thesis .
qed


lemma fl64_of_int:
  assumes "\<bar>z\<bar> \<le> 2 ^ 53"
  shows "fl64 (of_int z) = of_int z"
proof (cases "z = 0")
  case True
  then show ?thesis by (simp add: fl64_def)
next
  case False
  define a :: rat where "a = \<bar>of_int z\<bar>"
  have a1: "1 \<le> a" using False by (simp add: a_def flip: of_int_abs)
  have a53: "a \<le> 2 ^ 53"
  proof -
    have "(of_int \<bar>z\<bar> :: rat) \<le> of_int (2 ^ 53)"
      using assms by (simp only: of_int_le_iff)
    then show ?thesis by (simp add: a_def)
  qed
  have pos: "0 < a" using a1 by simp
  define k where "k = ilog2 a"
  note B = ilog2_bounds [OF pos, folded k_def]
  have "(2::rat) powi 0 < 2 powi (k + 1)"
    using a1 B(2) by simp
  then have k0: "0 \<le> k" by (simp only: powi_two_less_iff)
  have "(2::rat) powi k \<le> 2 powi 53"
    using a53 B(1) by simp
  then have k53: "k \<le> 53" by (simp only: powi_two_le_iff)
  have e: "max (ilog2 \<bar>of_int z\<bar> - 52) (- 1074) = k - 52"
    using k0 by (simp add: k_def a_def)
  have nz: "(of_int z :: rat) \<noteq> 0" using False by simp
  show ?thesis
  proof (cases "k = 53")
    case True
    have "a = 2 ^ 53"
      using B(1) a53 True by simp
    then have "\<bar>z\<bar> = 2 ^ 53"
      unfolding a_def by (metis of_int_abs of_int_eq_numeral_power_cancel_iff)
    then consider "z = 2 ^ 53" | "z = - (2 ^ 53)" by (auto simp: abs_if split: if_splits)
    then obtain m :: int where "(of_int z :: rat) / 2 powi (k - 52) = of_int m"
    proof cases
      case 1
      have "(of_int z :: rat) / 2 powi (k - 52) = of_int (2 ^ 52)"
        unfolding 1 True by simp
      then show thesis by (rule that)
    next
      case 2
      have "(of_int z :: rat) / 2 powi (k - 52) = of_int (- (2 ^ 52))"
        unfolding 2 True by simp
      then show thesis by (rule that)
    qed
    then show ?thesis
      using nz e by (intro fl64_exact [where m = m]) simp_all
  next
    case False
    with k53 have le: "k \<le> 52" by simp
    have "(of_int z :: rat) / 2 powi (k - 52) = of_int z * 2 powi (52 - k)"
      by (simp add: power_int_diff)
    also have "\<dots> = of_int z * 2 ^ nat (52 - k)"
      using le by (simp add: power_int_nonneg_exp)
    also have "\<dots> = of_int (z * 2 ^ nat (52 - k))"
      by simp
    finally show ?thesis
      using nz e by (intro fl64_exact [where m = "z * 2 ^ nat (52 - k)"]) simp_all
  qed
qed

lemma round_half_even_between:
  assumes "of_int a \<le> x" "x \<le> of_int b"
  shows "a \<le> round_half_even x" and "round_half_even x \<le> b"
proof -
  note e = round_half_even_error [of x]
  have "(of_int a :: rat) - 1 / 2 \<le> of_int (round_half_even x)"
    using e assms(1) by (simp add: abs_if split: if_splits)
  then have "(of_int a :: rat) < of_int (round_half_even x) + 1"
    by simp
  then have "a < round_half_even x + 1"
    by (metis of_int_1 of_int_add of_int_less_iff)
  then show "a \<le> round_half_even x" by simp
  have "(of_int (round_half_even x) :: rat) \<le> of_int b + 1 / 2"
    using e assms(2) by (simp add: abs_if split: if_splits)
  then have "(of_int (round_half_even x) :: rat) < of_int b + 1"
    by simp
  then have "round_half_even x < b + 1"
    by (metis of_int_1 of_int_add of_int_less_iff)
  then show "round_half_even x \<le> b" by simp
qed

lemma ilog2_scale:
  assumes "0 < x"
  shows "ilog2 (x * 2 powi e) = ilog2 x + e"
proof (rule ilog2_unique)
  note B = ilog2_bounds [OF assms]
  have p: "(0::rat) < 2 powi e" by simp
  have "(2::rat) powi (ilog2 x + e) = 2 powi (ilog2 x) * 2 powi e"
    by (simp add: power_int_add)
  also have "\<dots> \<le> x * 2 powi e"
    using B(1) p by (simp only: mult_right_mono less_imp_le)
  finally show "2 powi (ilog2 x + e) \<le> x * 2 powi e" .
  have "x * 2 powi e < 2 powi (ilog2 x + 1) * 2 powi e"
    using B(2) p by (simp only: mult_strict_right_mono)
  also have "\<dots> = 2 powi (ilog2 x + e + 1)"
    by (simp add: power_int_add)
  finally show "x * 2 powi e < 2 powi (ilog2 x + e + 1)" .
qed

lemma fl64_idem_pos:
  assumes "0 < x"
  shows "fl64 (fl64 x) = fl64 x"
proof -
  define k where "k = ilog2 x"
  define e where "e = max (k - 52) (- 1074)"
  define m where "m = round_half_even (x / 2 powi e)"
  note B = ilog2_bounds [OF assms, folded k_def]
  have p: "(0::rat) < 2 powi e" by simp
  have f: "fl64 x = of_int m * 2 powi e"
    using assms by (simp add: fl64_def Let_def e_def k_def m_def)
  have ke: "k - 52 \<le> e" and e1074: "- 1074 \<le> e" by (simp_all add: e_def)
  have "x / 2 powi e < 2 powi (k + 1) / 2 powi e"
    using B(2) p by (simp only: divide_strict_right_mono)
  also have "\<dots> = 2 powi (k + 1 - e)"
    by (simp add: power_int_diff)
  also have "\<dots> \<le> 2 powi 53"
    using ke by (simp only: powi_two_le_iff)
  finally have hi: "x / 2 powi e \<le> of_int (2 ^ 53)"
    by simp
  have lo: "of_int 0 \<le> x / 2 powi e"
    using assms by simp
  have m0: "0 \<le> m" and m53: "m \<le> 2 ^ 53"
    unfolding m_def using round_half_even_between [OF lo hi] by simp_all
  show ?thesis
  proof (cases "m = 0")
    case True
    then have z: "fl64 x = 0" by (simp add: f)
    show ?thesis unfolding z by (simp add: fl64_def)
  next
    case False
    with m0 have mpos: "0 < m" by simp
    then have mq: "(0::rat) < of_int m" by simp
    define j where "j = ilog2 (of_int m)"
    note M = ilog2_bounds [OF mq, folded j_def]
    have "(2::rat) powi j \<le> of_int (2 ^ 53)"
      using M(1) m53 by (metis of_int_le_iff order_trans)
    then have "(2::rat) powi j \<le> 2 powi 53" by simp
    then have j53: "j \<le> 53" by (simp only: powi_two_le_iff)
    have nz: "fl64 x \<noteq> 0" using mq by (simp add: f)
    have fpos: "0 < fl64 x" using mq by (simp add: f)
    have il: "ilog2 \<bar>fl64 x\<bar> = j + e"
      using fpos ilog2_scale [OF mq, of e] by (simp add: f j_def)
    show ?thesis
    proof (cases "j = 53")
      case True
      have "(2::rat) ^ 53 \<le> of_int m"
        using M(1) True by simp
      then have "(of_int (2 ^ 53) :: rat) \<le> of_int m" by simp
      then have "2 ^ 53 \<le> m" by (simp only: of_int_le_iff)
      with m53 have m: "m = 2 ^ 53" by simp
      have e': "max (ilog2 \<bar>fl64 x\<bar> - 52) (- 1074) = e + 1"
        using e1074 by (simp add: il True)
      have "fl64 x / 2 powi (e + 1) = of_int (2 ^ 52)"
        by (simp add: f m power_int_add)
      then show ?thesis
        using nz e' by (intro fl64_exact [where m = "2 ^ 52"]) simp_all
    next
      case False
      with j53 have j52: "j \<le> 52" by simp
      define e' where "e' = max (ilog2 \<bar>fl64 x\<bar> - 52) (- 1074)"
      have le: "e' \<le> e"
        using j52 e1074 by (simp add: e'_def il)
      have "fl64 x / 2 powi e' = of_int m * 2 powi (e - e')"
        by (simp add: f power_int_diff)
      also have "\<dots> = of_int m * 2 ^ nat (e - e')"
        using le by (simp add: power_int_nonneg_exp)
      also have "\<dots> = of_int (m * 2 ^ nat (e - e'))"
        by simp
      finally have "fl64 x / 2 powi max (ilog2 \<bar>fl64 x\<bar> - 52) (- 1074)
          = of_int (m * 2 ^ nat (e - e'))"
        unfolding e'_def [symmetric] .
      with nz show ?thesis by (rule fl64_exact)
    qed
  qed
qed

text \<open>Rounding a float gives the float itself.\<close>

lemma fl64_idem: "fl64 (fl64 x) = fl64 x"
proof (cases "0 < x")
  case True
  then show ?thesis by (rule fl64_idem_pos)
next
  case False
  show ?thesis
  proof (cases "x = 0")
    case True
    then show ?thesis by (simp add: fl64_def)
  next
    case nz: False
    with False have "0 < - x" by simp
    then have "fl64 (fl64 (- x)) = fl64 (- x)" by (rule fl64_idem_pos)
    then show ?thesis by (simp add: fl64_minus)
  qed
qed

subsection \<open>Operations within range\<close>

text \<open>Within the range of the floats nothing overflows, and an integer of at most 53 bits is
  converted exactly.\<close>

lemma true_divide_in_range:
  "b \<noteq> 0 \<Longrightarrow> \<bar>of_int a / of_int b :: rat\<bar> < 2 ^ 1023 \<Longrightarrow>
   true_divide a b = Inr (fl64 (of_int a / of_int b))"
  by (simp add: true_divide_def not_overflows)

lemma not_overflows_of_int: "\<bar>i\<bar> \<le> 2 ^ 53 \<Longrightarrow> \<not> overflows (of_int i)"
proof (rule not_overflows)
  assume "\<bar>i\<bar> \<le> 2 ^ 53"
  then have "(of_int \<bar>i\<bar> :: rat) \<le> of_int (2 ^ 53)"
    by (simp only: of_int_le_iff)
  then show "\<bar>of_int i :: rat\<bar> < 2 ^ 1023" by simp
qed

lemma int_times_float_in_range:
  assumes "\<bar>i\<bar> \<le> 2 ^ 53" and "\<bar>of_int i * x\<bar> < 2 ^ 1023"
  shows "int_times_float i x = Inr (py_int (fl64 (of_int i * x)))"
  using assms not_overflows_of_int [OF assms(1)]
  by (simp add: int_times_float_def fl64_of_int not_overflows)


lemma abs_times_fl64_bound:
  assumes "\<bar>i\<bar> \<le> 2 ^ 53" and "\<bar>x\<bar> \<le> 2 ^ 900"
  shows "\<bar>of_int i * fl64 x :: rat\<bar> < 2 ^ 1023"
proof -
  have i: "\<bar>of_int i :: rat\<bar> \<le> 2 ^ 53"
  proof -
    have "(of_int \<bar>i\<bar> :: rat) \<le> of_int (2 ^ 53)"
      using assms(1) by (simp only: of_int_le_iff)
    then show ?thesis by simp
  qed
  have x: "\<bar>fl64 x\<bar> \<le> 2 ^ 901"
    using fl64_abs_le [of x] assms(2) by simp
  have "\<bar>of_int i * fl64 x :: rat\<bar> = \<bar>of_int i\<bar> * \<bar>fl64 x\<bar>"
    by (rule abs_mult)
  also have "\<dots> \<le> 2 ^ 53 * 2 ^ 901"
    using i x by (intro mult_mono) simp_all
  also have "\<dots> < (2 :: rat) ^ 1023"
    by simp
  finally show ?thesis .
qed


section \<open>Properties of the chunker\<close>

text \<open>The loop unfolds once when a chunk is complete and stops when none is.\<close>

lemma emit_chunks_emit:
  "target \<le> int (length (buffer s)) \<Longrightarrow>
   emit_chunks clock src target s =
     emit_chunks clock src target
          \<lparr> buffer = slice_from target (buffer s),
            audio_queue = audio_queue s @
              [\<lparr> source = src, data = slice_to target (buffer s), timestamp = clock (ticks s) \<rparr>],
            ticks = Suc (ticks s) \<rparr>"
  by (subst emit_chunks.simps) simp

lemma emit_chunks_done:
  "int (length (buffer s)) < target \<Longrightarrow> emit_chunks clock src target s = Some s"
  by (subst emit_chunks.simps) simp

text \<open>The loop returns only for a positive chunk size; otherwise it runs forever.\<close>

lemma emit_chunks_returns_positive:
  "emit_chunks clock src target s = Some s' \<Longrightarrow> 0 < target"
  by (rule emit_chunks.raw_induct [where P = "\<lambda>clock src target s s'. 0 < target"])
     (auto split: if_splits)

lemma emit_chunks_diverges:
  "target \<le> 0 \<Longrightarrow> emit_chunks clock src target s = None"
  using emit_chunks_returns_positive [of clock src target s]
  by (cases "emit_chunks clock src target s") auto


lemma emit_chunks_spec:
  assumes "0 < target"
  shows "\<exists>s' new. emit_chunks clock src target s = Some s'
      \<and> int (length (buffer s')) < target
      \<and> audio_queue s' = audio_queue s @ new
      \<and> (\<forall>c \<in> set new. int (length (data c)) = target \<and> source c = src)
      \<and> concat (map data new) @ buffer s' = buffer s"
proof (induction "length (buffer s)" arbitrary: s rule: less_induct)
  case less
  show ?case
  proof (cases "target \<le> int (length (buffer s))")
    case False
    then show ?thesis
      by (subst emit_chunks.simps) simp
  next
    case True
    let ?c = "\<lparr> source = src, data = slice_to target (buffer s), timestamp = clock (ticks s) \<rparr>"
    let ?s1 = "\<lparr> buffer = slice_from target (buffer s),
            audio_queue = audio_queue s @ [?c], ticks = Suc (ticks s) \<rparr>"
    have shorter: "length (buffer ?s1) < length (buffer s)"
      using True assms by (simp add: slice_from_def)
    from less [OF shorter] obtain s' new where
      run: "emit_chunks clock src target ?s1 = Some s'"
      and small: "int (length (buffer s')) < target"
      and q: "audio_queue s' = audio_queue ?s1 @ new"
      and len: "\<forall>c \<in> set new. int (length (data c)) = target \<and> source c = src"
      and cat: "concat (map data new) @ buffer s' = buffer ?s1"
      by blast
    have step: "emit_chunks clock src target s = Some s'"
      using True run by (subst emit_chunks.simps) simp
    have clen: "int (length (data ?c)) = target"
      using True assms by (simp add: slice_to_def)
    have ccat: "data ?c @ buffer ?s1 = buffer s"
      using assms by (simp add: slice_to_def slice_from_def)
    show ?thesis
      apply (rule exI [of _ s'], rule exI [of _ "?c # new"])
      using step small q len clen ccat cat by simp
  qed
qed

lemma push_block_spec:
  assumes "0 < target"
  shows "\<exists>s' new. push_block clock src target audio s = Some s'
      \<and> int (length (buffer s')) < target
      \<and> audio_queue s' = audio_queue s @ new
      \<and> (\<forall>c \<in> set new. int (length (data c)) = target \<and> source c = src)
      \<and> concat (map data new) @ buffer s' = buffer s @ audio"
  using emit_chunks_spec [OF assms, of clock src "s\<lparr> buffer := buffer s @ audio \<rparr>"]
  by (simp add: push_block_def)

lemma push_blocks_spec:
  assumes "0 < target"
  shows "\<exists>s' new. push_blocks clock src target bs s = Some s'
      \<and> (bs \<noteq> [] \<longrightarrow> int (length (buffer s')) < target)
      \<and> audio_queue s' = audio_queue s @ new
      \<and> (\<forall>c \<in> set new. int (length (data c)) = target \<and> source c = src)
      \<and> concat (map data new) @ buffer s' = buffer s @ concat bs"
proof (induction bs arbitrary: s)
  case Nil
  show ?case by simp
next
  case (Cons b bs)
  from push_block_spec [OF assms, of clock src b s] obtain s1 new1 where
    one: "push_block clock src target b s = Some s1"
    and small1: "int (length (buffer s1)) < target"
    and q1: "audio_queue s1 = audio_queue s @ new1"
    and len1: "\<forall>c \<in> set new1. int (length (data c)) = target \<and> source c = src"
    and cat1: "concat (map data new1) @ buffer s1 = buffer s @ b"
    by blast
  from Cons.IH [of s1] obtain s' new where
    run: "push_blocks clock src target bs s1 = Some s'"
    and small: "bs \<noteq> [] \<longrightarrow> int (length (buffer s')) < target"
    and q: "audio_queue s' = audio_queue s1 @ new"
    and len: "\<forall>c \<in> set new. int (length (data c)) = target \<and> source c = src"
    and cat: "concat (map data new) @ buffer s' = buffer s1 @ concat bs"
    by blast
  have last_small: "int (length (buffer s')) < target"
  proof (cases bs)
    case Nil
    with run small1 show ?thesis by simp
  next
    case (Cons a list)
    with small show ?thesis by simp
  qed
  have "concat (map data (new1 @ new)) @ buffer s' = buffer s @ concat (b # bs)"
    using cat cat1 by (metis append.assoc concat.simps(2) concat_append map_append)
  with one run last_small q q1 len len1 show ?case
    by (intro exI [of _ s'] exI [of _ "new1 @ new"]) auto
qed


lemma length_concat_chunks:
  "\<forall>c \<in> set new. int (length (data c)) = target \<Longrightarrow>
   int (length (concat (map data new))) = target * int (length new)"
  by (induction new) (auto simp: algebra_simps)

lemma remainder_empty:
  assumes pos: "0 < target"
    and len: "\<forall>c \<in> set new. int (length (data c)) = target"
    and cat: "concat (map data new) @ buf = xs"
    and small: "int (length buf) < target"
    and dvd: "target dvd int (length xs)"
  shows "buf = []"
proof -
  have "int (length xs) = target * int (length new) + int (length buf)"
    using length_concat_chunks [OF len] cat by auto
  with dvd have "target dvd int (length buf)"
    by (metis dvd_add_right_iff dvd_triv_left)
  with small pos have "int (length buf) = 0"
    by (metis zdvd_not_zless of_nat_0_le_iff less_le)
  then show ?thesis by simp
qed

text \<open>
  Claim C6. Feed any sequence of blocks to the chunker of a source that starts with an empty
  carry-over buffer, with a positive chunk size. The run returns; the chunks it has added to
  the queue, concatenated in emission order and followed by the carry-over buffer, are the
  concatenated input, so the emitted samples are a prefix of the input with nothing missing,
  repeated or reordered; and when the chunk size divides the input length, the emitted
  samples are the whole input.
\<close>

theorem chunking_lossless_ordered:
  assumes "0 < target"
  shows "\<exists>s' new.
      push_blocks clock src target bs \<lparr> buffer = [], audio_queue = q0, ticks = k \<rparr> = Some s'
      \<and> audio_queue s' = q0 @ new
      \<and> concat (map data new) @ buffer s' = concat bs
      \<and> prefix (concat (map data new)) (concat bs)
      \<and> int (length (buffer s')) < target
      \<and> (target dvd int (length (concat bs)) \<longrightarrow> concat (map data new) = concat bs)"
proof -
  let ?s0 = "\<lparr> buffer = [], audio_queue = q0, ticks = k \<rparr> :: ('a, 'b) capture_state"
  from push_blocks_spec [OF assms, of clock src bs ?s0] obtain s' new where
    run: "push_blocks clock src target bs ?s0 = Some s'"
    and small: "bs \<noteq> [] \<longrightarrow> int (length (buffer s')) < target"
    and q: "audio_queue s' = audio_queue ?s0 @ new"
    and len: "\<forall>c \<in> set new. int (length (data c)) = target \<and> source c = src"
    and cat: "concat (map data new) @ buffer s' = buffer ?s0 @ concat bs"
    by blast
  have small': "int (length (buffer s')) < target"
    using small run assms by (cases bs) auto
  have cat': "concat (map data new) @ buffer s' = concat bs"
    using cat by simp
  have pre: "prefix (concat (map data new)) (concat bs)"
    using cat' by (metis prefixI)
  have exact: "concat (map data new) = concat bs" if "target dvd int (length (concat bs))"
    using remainder_empty [OF assms _ cat' small' that] len cat' by auto
  show ?thesis
    using run q cat' pre small' exact by (intro exI [of _ s'] exI [of _ new]) auto
qed

theorem chunking_lossless_ordered_witness:
  "(0::int) < 2 \<and>
   push_blocks (\<lambda>n. n) ''you'' 2 [[1, 2, 3], [4 :: nat]]
      \<lparr> buffer = [], audio_queue = [], ticks = 0 \<rparr>
     = Some \<lparr> buffer = [],
              audio_queue = [\<lparr> source = ''you'', data = [1, 2], timestamp = 0 \<rparr>,
                             \<lparr> source = ''you'', data = [3, 4], timestamp = 1 \<rparr>],
              ticks = 2 \<rparr> \<and>
   (2::int) dvd int (length (concat [[1, 2, 3], [4 :: nat]])) \<and>
   [1, 2] @ [3, 4] = concat [[1, 2, 3], [4 :: nat]]"
proof -
  have pos: "(0::int) < 2" by simp
  have run: "push_blocks (\<lambda>n. n) ''you'' 2 [[1, 2, 3], [4 :: nat]]
      \<lparr> buffer = [], audio_queue = [], ticks = 0 \<rparr>
     = Some \<lparr> buffer = [],
              audio_queue = [\<lparr> source = ''you'', data = [1, 2], timestamp = 0 \<rparr>,
                             \<lparr> source = ''you'', data = [3, 4], timestamp = 1 \<rparr>],
              ticks = 2 \<rparr>"
    by (simp add: push_block_def emit_chunks_emit emit_chunks_done slice_to_def slice_from_def)
  from chunking_lossless_ordered [OF pos, of "\<lambda>n. n" "''you''" "[[1, 2, 3], [4 :: nat]]" "[]" 0]
  show ?thesis using run by simp
qed


section \<open>Properties of the capture workers\<close>

text \<open>The chunk size \<^verbatim>\<open>int(sample_rate * chunk_duration)\<close>.\<close>

lemma chunk_samples_in_range:
  assumes "\<bar>secs\<bar> < 2 ^ 1023" and "\<bar>rate\<bar> \<le> 2 ^ 53"
    and "\<bar>of_int rate * fl64 secs\<bar> < 2 ^ 1023"
  shows "chunk_samples rate secs = Inr (py_int (fl64 (of_int rate * fl64 secs)))"
  using assms by (simp add: chunk_samples_def not_overflows int_times_float_in_range)


lemma chunk_samples_eval:
  assumes "\<bar>rate\<bar> \<le> 2 ^ 53" and "\<bar>secs\<bar> \<le> 2 ^ 900"
    and "py_int (fl64 (of_int rate * fl64 secs)) = n"
  shows "chunk_samples rate secs = Inr n"
proof -
  have "\<bar>secs\<bar> < 2 ^ 1023"
    using assms(2) by (rule le_less_trans) simp
  then show ?thesis
    using assms(1,3) abs_times_fl64_bound [OF assms(1,2)]
    by (simp add: chunk_samples_in_range)
qed

lemma chunk_samples_examples:
  "chunk_samples 16000 2 = Inr 32000"
  "chunk_samples 10 (7 / 10) = Inr 7"
  "chunk_samples 16000 (3 / 10) = Inr 4800"
  "chunk_samples 100 (29 / 100) = Inr 28"
  "chunk_samples 16000 (1001 / 1000) = Inr 16015"
  by (rule chunk_samples_eval, simp, simp, code_simp)+


text \<open>With one channel the block goes to the resampler when the rates differ and straight to
  the chunker when they agree; \<^verbatim>\<open>_read_stream\<close> is then the chunker fed with the blocks read.\<close>

lemma prepare_block_same_rate:
  "channels \<le> 1 \<Longrightarrow> native_rate = sample_rate cfg \<Longrightarrow>
   prepare_block np cfg native_rate channels raw = Inr raw"
  by (simp add: prepare_block_def to_mono_def)

lemma prepare_block_other_rate:
  "channels \<le> 1 \<Longrightarrow> native_rate \<noteq> sample_rate cfg \<Longrightarrow>
   prepare_block np cfg native_rate channels raw = resample np (sample_rate cfg) native_rate raw"
  by (simp add: prepare_block_def to_mono_def)

lemma read_loop_same_rate:
  assumes "channels \<le> 1" "native_rate = sample_rate cfg"
  shows "read_loop np clock cfg target src native_rate channels (map Frames bs) s =
     push_blocks clock src target bs s"
proof (induction bs arbitrary: s)
  case Nil
  show ?case by simp
next
  case (Cons b bs)
  have "read_iteration np clock cfg target src native_rate channels (Frames b) s =
      push_block clock src target b s"
    using assms by (simp add: read_iteration_def prepare_block_same_rate)
  with Cons show ?case by (simp split: option.splits)
qed

lemma read_stream_same_rate:
  assumes "channels \<le> 1" "native_rate = sample_rate cfg"
    and "target_chunk_samples cfg = Inr target"
  shows "read_stream np clock cfg src native_rate channels (map Frames bs) s =
     map_option Inr (push_blocks clock src target bs (s\<lparr> buffer := [] \<rparr>))"
  by (simp add: read_stream_def assms(3) read_loop_same_rate [OF assms(1,2)])

lemma read_stream_raises:
  "target_chunk_samples cfg = Inl e \<Longrightarrow>
   read_stream np clock cfg src native_rate channels rds s = Some (Inl e)"
  by (simp add: read_stream_def)





lemma dummy_stream_buffer:
  "buffer (snd (dummy_stream too_long clock cfg src n s)) = buffer s"
  by (induction n arbitrary: s) (simp_all add: Let_def split: option.splits)

lemma dummy_stream_count:
  assumes "0 \<le> chunk_size cfg" and "time_sleep too_long (fl64 (chunk_duration cfg)) = None"
  shows "length (audio_queue (snd (dummy_stream too_long clock cfg src n s)))
     = length (audio_queue s) + n"
  using assms by (induction n arbitrary: s) (simp_all add: Let_def)

lemma dummy_stream_sleep_returns:
  assumes "0 \<le> chunk_size cfg" and "time_sleep too_long (fl64 (chunk_duration cfg)) = None"
  shows "fst (dummy_stream too_long clock cfg src n s) = None"
  using assms by (induction n arbitrary: s) (simp_all add: Let_def)

lemma dummy_stream_sleep_raises:
  assumes "0 \<le> chunk_size cfg" and "time_sleep too_long (fl64 (chunk_duration cfg)) = Some e"
  shows "dummy_stream too_long clock cfg src (Suc n) s =
     (Some e, s\<lparr> audio_queue := audio_queue s @
                      [\<lparr> source = src, data = replicate (nat (chunk_size cfg)) 0,
                         timestamp = clock (ticks s) \<rparr>],
                    ticks := Suc (ticks s) \<rparr>)"
  using assms by (simp add: Let_def)

lemma time_sleep_negative:
  "secs < 0 \<Longrightarrow> time_sleep too_long secs \<noteq> None"
  by (simp add: time_sleep_def)



text \<open>The sizes for some configurations, among them the default of 16000 samples per second
  and chunks of 2 seconds. The float nearest to 0.29 is below it, and so is its product with
  100 after rounding, which is truncated to 28; the float nearest to 0.7 is below it as well,
  but its product with 10 rounds to 7.\<close>

lemma chunk_size_examples:
  "init 16000 2 = Inr \<lparr> sample_rate = 16000, chunk_duration = 2, chunk_size = 32000 \<rparr>"
  "init 100 (29 / 100) = Inr \<lparr> sample_rate = 100, chunk_duration = 29 / 100, chunk_size = 28 \<rparr>"
  "init 10 (7 / 10) = Inr \<lparr> sample_rate = 10, chunk_duration = 7 / 10, chunk_size = 7 \<rparr>"
  by (simp_all add: init_def chunk_samples_examples)

text \<open>With a negative secs and a negative rate the chunk size is positive, and
  \<^verbatim>\<open>_dummy_stream\<close> queues one chunk before \<^verbatim>\<open>time.sleep\<close> raises.\<close>

lemma dummy_stream_negative_duration:
  "init (- 4) (- (1 / 2)) = Inr \<lparr> sample_rate = - 4, chunk_duration = - (1 / 2), chunk_size = 2 \<rparr>"
  "dummy_stream (\<lambda>secs. False) (\<lambda>n. n)
       \<lparr> sample_rate = - 4, chunk_duration = - (1 / 2), chunk_size = 2 \<rparr> ''you'' 3
       \<lparr> buffer = [], audio_queue = [], ticks = 0 \<rparr>
     = (Some ValueError,
        \<lparr> buffer = [],
          audio_queue = [\<lparr> source = ''you'', data = [0, 0 :: rat], timestamp = 0 \<rparr>],
          ticks = 1 \<rparr>)"
proof -
  have size: "chunk_samples (- 4) (- (1 / 2)) = Inr 2"
    by (rule chunk_samples_eval, simp, simp, code_simp)
  show "init (- 4) (- (1 / 2))
      = Inr \<lparr> sample_rate = - 4, chunk_duration = - (1 / 2), chunk_size = 2 \<rparr>"
    by (simp add: init_def size)
  have half: "fl64 (- (1 / 2)) = - (1 / 2)"
    by code_simp
  show "dummy_stream (\<lambda>secs. False) (\<lambda>n. n)
       \<lparr> sample_rate = - 4, chunk_duration = - (1 / 2), chunk_size = 2 \<rparr> ''you'' 3
       \<lparr> buffer = [], audio_queue = [], ticks = 0 \<rparr>
     = (Some ValueError,
        \<lparr> buffer = [],
          audio_queue = [\<lparr> source = ''you'', data = [0, 0 :: rat], timestamp = 0 \<rparr>],
          ticks = 1 \<rparr>)"
    by (simp add: time_sleep_def half numeral_2_eq_2 numeral_3_eq_3)
qed

section \<open>Properties of the resampling step\<close>


text \<open>The new length on concrete inputs.\<close>

lemma new_length_eval:
  assumes "native_rate \<noteq> 0" and "\<bar>target_rate\<bar> \<le> 2 ^ 53" and "int n \<le> 2 ^ 53"
    and "py_int (fl64 (of_int (int n) * fl64 (of_int target_rate / of_int native_rate))) = m"
  shows "new_length target_rate native_rate n = Inr m"
proof -
  define y :: rat where "y = of_int target_rate / of_int native_rate"
  have t: "\<bar>of_int target_rate :: rat\<bar> \<le> 2 ^ 53"
  proof -
    have "(of_int \<bar>target_rate\<bar> :: rat) \<le> of_int (2 ^ 53)"
      using assms(2) by (simp only: of_int_le_iff)
    then show ?thesis by simp
  qed
  have "(1::rat) \<le> \<bar>of_int native_rate\<bar>"
    using assms(1) by (simp flip: of_int_abs)
  then have "\<bar>y\<bar> \<le> \<bar>of_int target_rate\<bar> / 1"
    unfolding y_def abs_divide by (intro divide_left_mono) simp_all
  with t have y53: "\<bar>y\<bar> \<le> 2 ^ 53" by simp
  then have y900: "\<bar>y\<bar> \<le> 2 ^ 900"
    by (rule order_trans) simp
  have "\<bar>y\<bar> < 2 ^ 1023"
    using y53 by (rule le_less_trans) simp
  then have ratio: "true_divide target_rate native_rate = Inr (fl64 y)"
    unfolding y_def using assms(1) by (intro true_divide_in_range)
  have n53: "\<bar>int n\<bar> \<le> 2 ^ 53" using assms(3) by simp
  have "int_times_float (int n) (fl64 y) = Inr (py_int (fl64 (of_int (int n) * fl64 y)))"
    using n53 abs_times_fl64_bound [OF n53 y900] by (rule int_times_float_in_range)
  then show ?thesis
    using assms(4) by (simp add: new_length_def ratio y_def)
qed

text \<open>A block of a tenth of a second from a device at 48000 or 44100 samples per second
  becomes 1600 samples at 16000. When the quotient is whole the rounding of the ratio can
  leave the product just below it, and the length is one less: 7 samples at a rate of 7 give
  60 samples at a rate of 61, and 800 samples at a rate of 8000 give 819 at a rate of 8200.\<close>

lemma new_length_examples:
  "new_length 16000 48000 4800 = Inr 1600"
  "new_length 16000 44100 4410 = Inr 1600"
  "new_length 61 7 7 = Inr 60"
  "new_length 8200 8000 800 = Inr 819"
  by (rule new_length_eval, simp, simp, simp, code_simp)+


lemma resample_raises:
  "new_length target_rate native_rate (length audio) = Inl e \<Longrightarrow>
   resample np target_rate native_rate audio = Inl e"
  by (simp add: resample_def)

lemma resample_empty:
  "new_length target_rate native_rate 0 = Inr m \<Longrightarrow>
   resample np target_rate native_rate [] = Inl ValueError"
  by (simp add: resample_def linspace_def interp_def split: sum.splits)




section \<open>Properties of the speech gate\<close>


declare py_range.simps [simp del] rows.simps [simp del]

lemma py_range_next: "0 < step \<Longrightarrow> i < stop \<Longrightarrow> py_range i stop step = i # py_range (i + step) stop step"
  by (subst py_range.simps) simp

lemma py_range_end: "\<not> (0 < step \<and> i < stop) \<Longrightarrow> py_range i stop step = []"
  by (subst py_range.simps) simp

lemma set_py_range:
  "0 < step \<Longrightarrow> set (py_range i stop step) = {j. i \<le> j \<and> j < stop \<and> step dvd (j - i)}"
proof (induction i stop step rule: py_range.induct)
  case (1 i stop step)
  note pos = \<open>0 < step\<close>
  show ?case
  proof (cases "i < stop")
    case False
    then show ?thesis by (auto simp: py_range_end)
  next
    case True
    have ih: "set (py_range (i + step) stop step) = {j. i + step \<le> j \<and> j < stop \<and> step dvd (j - (i + step))}"
      using 1 True by simp
    have "{j. i \<le> j \<and> j < stop \<and> step dvd (j - i)} =
          insert i {j. i + step \<le> j \<and> j < stop \<and> step dvd (j - (i + step))}" (is "?L = ?R")
    proof
      show "?L \<subseteq> ?R"
      proof
        fix j assume "j \<in> ?L"
        then have j: "i \<le> j" "j < stop" "step dvd (j - i)" by auto
        show "j \<in> ?R"
        proof (cases "j = i")
          case True then show ?thesis by simp
        next
          case False
          with j have "0 < j - i" by simp
          with j(3) have "step \<le> j - i" by (rule zdvd_imp_le)
          moreover have "step dvd (j - (i + step))"
            using j(3) by (metis diff_diff_add dvd_diff dvd_refl add.commute diff_diff_eq)
          ultimately show ?thesis using j by simp
        qed
      qed
      show "?R \<subseteq> ?L"
      proof
        fix j assume "j \<in> ?R"
        then consider "j = i" | "i + step \<le> j" "j < stop" "step dvd (j - (i + step))" by auto
        then show "j \<in> ?L"
        proof cases
          case 1 with True show ?thesis by simp
        next
          case 2
          have "j - i = (j - (i + step)) + step" by simp
          then have "step dvd (j - i)" using 2(3) by (metis dvd_add dvd_refl)
          with 2 pos show ?thesis by simp
        qed
      qed
    qed
    with ih True pos show ?thesis by (simp add: py_range_next)
  qed
qed


lemma scan_windows_error:
  assumes "i \<in> set starts"
    and "\<forall>m. \<exists>e m'. score m (slice i (i + window_size) tensor) sr = (Inl e, m')"
  shows "fst (scan_windows score th sr tensor starts m) \<noteq> Inr False"
  using assms(1)
proof (induction starts arbitrary: m)
  case Nil
  then show ?case by simp
next
  case (Cons j starts)
  show ?case
  proof (cases "score m (slice j (j + window_size) tensor) sr")
    case (Pair r m')
    show ?thesis
    proof (cases r)
      case (Inl e)
      with Pair show ?thesis by simp
    next
      case (Inr confidence)
      show ?thesis
      proof (cases "th < confidence")
        case True
        with Pair Inr show ?thesis by simp
      next
        case False
        have "j \<noteq> i"
        proof
          assume "j = i"
          with assms(2) obtain e m'' where "score m (slice j (j + window_size) tensor) sr = (Inl e, m'')"
            by blast
          with Pair Inr show False by simp
        qed
        with Cons.prems have "i \<in> set starts" by simp
        from Cons.IH [OF this] Pair Inr False show ?thesis by simp
      qed
    qed
  qed
qed

lemma scan_windows_quiet:
  assumes "\<forall>i \<in> set starts. \<forall>m. \<exists>c m'. score m (slice i (i + window_size) tensor) sr = (Inr c, m') \<and> c \<le> th"
  shows "fst (scan_windows score th sr tensor starts m) = Inr False"
  using assms
proof (induction starts arbitrary: m)
  case Nil
  then show ?case by simp
next
  case (Cons j starts)
  from Cons.prems obtain c m' where
    sc: "score m (slice j (j + window_size) tensor) sr = (Inr c, m')" and le: "c \<le> th"
    by (metis list.set_intros(1))
  from Cons.prems have "\<forall>i \<in> set starts. \<forall>m. \<exists>c m'. score m (slice i (i + window_size) tensor) sr = (Inr c, m') \<and> c \<le> th"
    by simp
  from Cons.IH [OF this] sc le show ?case by simp
qed

lemma scan_windows_stateless:
  assumes "\<forall>m w. score m w sr = (Inr (conf w), m)"
  shows "scan_windows score th sr tensor starts m =
     (Inr (\<exists>i \<in> set starts. th < conf (slice i (i + window_size) tensor)), m)"
  using assms by (induction starts arbitrary: m) auto


lemma vad_load_model_keeps:
  "threshold (vad_load_model hub v) = threshold v"
  "vad_sample_rate (vad_load_model hub v) = vad_sample_rate v"
  by (auto simp: vad_load_model_def split: option.splits)

lemma contains_speech_stateless:
  assumes "vad_model (vad_load_model hub v) \<noteq> None"
    and "\<forall>m w. score m w (vad_sample_rate v) = (Inr (conf w), m)"
  shows "fst (contains_speech hub score v audio) \<longleftrightarrow>
     (\<exists>i \<in> set (window_starts audio). threshold v < conf (slice i (i + window_size) audio))"
proof -
  from assms(1) obtain m where m: "vad_model (vad_load_model hub v) = Some m" by auto
  show ?thesis
    using m scan_windows_stateless [where score = score and sr = "vad_sample_rate v" and conf = conf
        and th = "threshold v" and tensor = audio and starts = "window_starts audio" and m = m,
        OF assms(2)]
    by (simp add: contains_speech_def vad_load_model_keeps Let_def)
qed

lemma window_starts_iff:
  "i \<in> set (window_starts audio) \<longleftrightarrow> 0 \<le> i \<and> i + 512 < int (length audio) \<and> 512 dvd i"
  by (auto simp: window_starts_def window_size_def set_py_range)

text \<open>
  Claim C3. The comment in \<^verbatim>\<open>contains_speech\<close> says that the whole chunk is scanned and that
  speech anywhere makes the result true, but the scan stops at the starts \<open>i\<close> with
  \<open>i + 512 < len\<close>, so a window that ends exactly at the end of the chunk is never scored.
  On a chunk of 1024 samples whose second window scores 0.9 against a threshold of 0.5 the
  result is false, and on a chunk of 512 samples no window is scored at all.
\<close>

theorem contains_speech_misses_last_window:
  "fst ((\<lambda>m w sr. (Inr (if (1::rat) \<in> set w then 9 / 10 else 1 / 10), m))
         () (slice 512 1024 (replicate 512 0 @ replicate 512 1)) 16000) = Inr (9 / 10)
   \<and> fst (contains_speech None (\<lambda>m w sr. (Inr (if (1::rat) \<in> set w then 9 / 10 else 1 / 10), m))
         \<lparr> threshold = 1 / 2, vad_sample_rate = 16000, vad_model = Some () \<rparr>
         (replicate 512 0 @ replicate 512 1)) = False
   \<and> fst (contains_speech None (\<lambda>m w sr. (Inr (if (1::rat) \<in> set w then 9 / 10 else 1 / 10), m))
         \<lparr> threshold = 1 / 2, vad_sample_rate = 16000, vad_model = Some () \<rparr>
         (replicate 512 1)) = False"
proof -
  have one: "window_starts (replicate 512 (0::rat) @ replicate 512 1) = [0]"
    by (simp add: window_starts_def window_size_def py_range_next py_range_end)
  have none: "window_starts (replicate 512 (1::rat)) = []"
    by (simp add: window_starts_def window_size_def py_range_end)
  show ?thesis
    by (simp add: contains_speech_def vad_load_model_def one none slice_def window_size_def Let_def)
qed

text \<open>
  Claim C4. When the voice-activity model is not loaded and loading it fails, every chunk is
  accepted. When it is loaded: if the scan ends in an exception of the model the chunk is
  accepted, as it is when the model raises on one of the scanned windows whatever state it is
  in; and if on every scanned window it returns a confidence at or
  below the threshold, the chunk is rejected. The windows of an all-zero chunk are all-zero
  windows, so a model that stays at or below the threshold on silence rejects it.
\<close>

theorem gate_fails_open_and_rejects_quiet:
  fixes score :: "('m, 'a) scorer" and v :: "'m VoiceActivityDetector"
  shows "(vad_model v = None \<and> hub = None \<longrightarrow>
            contains_speech hub score v audio = (True, v))
       \<and> (\<forall>m e m'. vad_model (vad_load_model hub v) = Some m
              \<and> scan_windows score (threshold v) (vad_sample_rate v) audio (window_starts audio) m
                  = (Inl e, m') \<longrightarrow>
            fst (contains_speech hub score v audio) = True)
       \<and> (vad_model (vad_load_model hub v) \<noteq> None \<longrightarrow>
            (\<exists>i \<in> set (window_starts audio). \<forall>m. \<exists>e m'.
                score m (slice i (i + window_size) audio) (vad_sample_rate v) = (Inl e, m')) \<longrightarrow>
            fst (contains_speech hub score v audio) = True)
       \<and> (vad_model (vad_load_model hub v) \<noteq> None \<longrightarrow>
            (\<forall>i \<in> set (window_starts audio). \<forall>m. \<exists>c m'.
                score m (slice i (i + window_size) audio) (vad_sample_rate v) = (Inr c, m')
                \<and> c \<le> threshold v) \<longrightarrow>
            fst (contains_speech hub score v audio) = False)"
proof (intro conjI impI allI)
  assume "vad_model v = None \<and> hub = None"
  then show "contains_speech hub score v audio = (True, v)"
    by (simp add: contains_speech_def vad_load_model_def)
next
  fix m e m'
  assume "vad_model (vad_load_model hub v) = Some m
      \<and> scan_windows score (threshold v) (vad_sample_rate v) audio (window_starts audio) m = (Inl e, m')"
  then show "fst (contains_speech hub score v audio) = True"
    by (simp add: contains_speech_def vad_load_model_keeps Let_def)
next
  let ?v1 = "vad_load_model hub v"
  assume loaded: "vad_model ?v1 \<noteq> None"
  then obtain m where m: "vad_model ?v1 = Some m" by auto
  assume "\<exists>i \<in> set (window_starts audio). \<forall>m. \<exists>e m'.
                score m (slice i (i + window_size) audio) (vad_sample_rate v) = (Inl e, m')"
  then obtain i where i: "i \<in> set (window_starts audio)"
    and err: "\<forall>m. \<exists>e m'. score m (slice i (i + window_size) audio) (vad_sample_rate v) = (Inl e, m')"
    by blast
  obtain r m' where scan: "scan_windows score (threshold v) (vad_sample_rate v) audio
      (window_starts audio) m = (r, m')"
    by (cases "scan_windows score (threshold v) (vad_sample_rate v) audio (window_starts audio) m")
  from scan_windows_error [where score = score and tensor = audio and sr = "vad_sample_rate v"
      and th = "threshold v" and m = m, OF i err] scan
  have "r \<noteq> Inr False" by simp
  then show "fst (contains_speech hub score v audio) = True"
    using m scan by (cases r) (simp_all add: contains_speech_def vad_load_model_keeps Let_def)
next
  let ?v1 = "vad_load_model hub v"
  assume loaded: "vad_model ?v1 \<noteq> None"
  then obtain m where m: "vad_model ?v1 = Some m" by auto
  assume quiet: "\<forall>i \<in> set (window_starts audio). \<forall>m. \<exists>c m'.
                score m (slice i (i + window_size) audio) (vad_sample_rate v) = (Inr c, m')
                \<and> c \<le> threshold v"
  obtain r m' where scan: "scan_windows score (threshold v) (vad_sample_rate v) audio
      (window_starts audio) m = (r, m')"
    by (cases "scan_windows score (threshold v) (vad_sample_rate v) audio (window_starts audio) m")
  from scan_windows_quiet [where score = score and tensor = audio and sr = "vad_sample_rate v"
      and th = "threshold v" and m = m, OF quiet] scan
  have "r = Inr False" by simp
  then show "fst (contains_speech hub score v audio) = False"
    using m scan by (simp add: contains_speech_def vad_load_model_keeps Let_def)
qed

theorem gate_fails_open_and_rejects_quiet_witness:
  "contains_speech None (\<lambda>m w sr. (Inr (1 / 10), m))
       \<lparr> threshold = 1 / 2, vad_sample_rate = 16000, vad_model = (None :: unit option) \<rparr>
       (replicate 1025 (0::rat))
     = (True, \<lparr> threshold = 1 / 2, vad_sample_rate = 16000, vad_model = None \<rparr>)
   \<and> window_starts (replicate 1025 (0::rat)) = [0, 512]
   \<and> fst (contains_speech None (\<lambda>m w sr. (Inl (Exception ''model error''), m))
       \<lparr> threshold = 1 / 2, vad_sample_rate = 16000, vad_model = Some () \<rparr>
       (replicate 1025 (0::rat))) = True
   \<and> fst (contains_speech None (\<lambda>m w sr. (Inr (1 / 10), m))
       \<lparr> threshold = 1 / 2, vad_sample_rate = 16000, vad_model = Some () \<rparr>
       (replicate 1025 (0::rat))) = False"
proof -
  let ?off = "\<lparr> threshold = 1 / 2, vad_sample_rate = 16000, vad_model = (None :: unit option) \<rparr>"
  let ?on = "\<lparr> threshold = 1 / 2, vad_sample_rate = 16000, vad_model = Some () \<rparr>"
  let ?quiet = "(\<lambda>m w sr. (Inr (1 / 10), m)) :: (unit, rat) scorer"
  let ?broken = "(\<lambda>m w sr. (Inl (Exception ''model error''), m)) :: (unit, rat) scorer"
  let ?audio = "replicate 1025 (0::rat)"
  have starts: "window_starts ?audio = [0, 512]"
    by (simp add: window_starts_def window_size_def py_range_next py_range_end)
  have off: "vad_model ?off = None \<and> (None :: unit option) = None"
    by simp
  have on: "vad_model (vad_load_model None ?on) \<noteq> None"
    by (simp add: vad_load_model_def)
  have raises: "\<exists>i \<in> set (window_starts ?audio). \<forall>m. \<exists>e m'.
      ?broken m (slice i (i + window_size) ?audio) (vad_sample_rate ?on) = (Inl e, m')"
    by (auto simp: starts)
  have quiet: "\<forall>i \<in> set (window_starts ?audio). \<forall>m. \<exists>c m'.
      ?quiet m (slice i (i + window_size) ?audio) (vad_sample_rate ?on) = (Inr c, m') \<and> c \<le> threshold ?on"
  proof (intro ballI allI)
    fix i :: int and m :: unit
    have "?quiet m (slice i (i + window_size) ?audio) (vad_sample_rate ?on) = (Inr (1 / 10), m)
        \<and> (1 / 10 :: rat) \<le> threshold ?on"
      by simp
    then show "\<exists>c m'. ?quiet m (slice i (i + window_size) ?audio) (vad_sample_rate ?on) = (Inr c, m')
        \<and> c \<le> threshold ?on"
      by blast
  qed
  from gate_fails_open_and_rejects_quiet [of ?off None ?quiet ?audio] off
  have a: "contains_speech None ?quiet ?off ?audio = (True, ?off)"
    by blast
  from gate_fails_open_and_rejects_quiet [of ?on None ?broken ?audio] on raises
  have b: "fst (contains_speech None ?broken ?on ?audio) = True"
    by blast
  from gate_fails_open_and_rejects_quiet [of ?on None ?quiet ?audio] on quiet
  have c: "fst (contains_speech None ?quiet ?on ?audio) = False"
    by blast
  from a starts b c show ?thesis by simp
qed

section \<open>Properties of the transcription engine\<close>

lemma fallback_to_cpu_spec:
  "cpu_only (fallback_to_cpu w e)
   \<and> compute_type (fallback_to_cpu w e) = ''int8''
   \<and> calls (fallback_to_cpu w e) = calls e @ [Construct ''cpu'' ''int8'']"
  by (simp add: fallback_to_cpu_def cpu_only_def Let_def)

lemma load_model_cpu:
  assumes "cpu_only e"
  shows "cpu_only (load_model w e)
     \<and> (\<exists>new. calls (load_model w e) = calls e @ new \<and> (\<forall>c \<in> set new. call_device c = ''cpu''))"
  using assms by (auto simp: load_model_def cpu_only_def Let_def)

lemma enter_try_cpu:
  assumes "cpu_only e"
  shows "case enter_try w e chunk of
           Inl e' \<Rightarrow> cpu_only e' \<and> (\<exists>new. calls e' = calls e @ new \<and> (\<forall>c \<in> set new. call_device c = ''cpu''))
         | Inr (e1, m) \<Rightarrow> cpu_only e1 \<and> wm_device m = ''cpu''
             \<and> (\<exists>new. calls e1 = calls e @ new \<and> (\<forall>c \<in> set new. call_device c = ''cpu''))"
proof -
  obtain speech v where g: "contains_speech (hub_load w (length (calls e))) (vad_score w) (vad e) (data chunk) = (speech, v)"
    by (cases "contains_speech (hub_load w (length (calls e))) (vad_score w) (vad e) (data chunk)")
  let ?e0 = "e\<lparr> vad := v \<rparr>"
  have e0: "cpu_only ?e0" "calls ?e0 = calls e"
    using assms by (simp_all add: cpu_only_def)
  from load_model_cpu [OF e0(1), of w] e0(2) obtain new where
    l: "cpu_only (load_model w ?e0)" "calls (load_model w ?e0) = calls e @ new"
      "\<forall>c \<in> set new. call_device c = ''cpu''"
    by auto
  show ?thesis
  proof (cases speech)
    case False
    with g e0 show ?thesis by (simp add: enter_try_def)
  next
    case True
    show ?thesis
    proof (cases "model (load_model w ?e0)")
      case None
      with True g l show ?thesis by (simp add: enter_try_def)
    next
      case (Some m)
      with l(1) have "wm_device m = ''cpu''" by (simp add: cpu_only_def)
      with True g l Some show ?thesis by (simp add: enter_try_def)
    qed
  qed
qed

lemma transcribe_chunk_cpu:
  assumes "cpu_only e"
  shows "cpu_only (snd (transcribe_chunk w e chunk))
     \<and> (\<exists>new. calls (snd (transcribe_chunk w e chunk)) = calls e @ new
            \<and> (\<forall>c \<in> set new. call_device c = ''cpu''))"
proof (cases "enter_try w e chunk")
  case (Inl e')
  with enter_try_cpu [OF assms, of w chunk] show ?thesis
    by (simp add: transcribe_chunk_def)
next
  case (Inr p)
  obtain e1 m where p: "p = (e1, m)" by (cases p)
  from enter_try_cpu [OF assms, of w chunk] Inr p obtain new where
    e1: "cpu_only e1" "wm_device m = ''cpu''" "calls e1 = calls e @ new"
      "\<forall>c \<in> set new. call_device c = ''cpu''"
    by auto
  let ?e2 = "e1\<lparr> calls := calls e1 @ [Transcribe (wm_device m)] \<rparr>"
  have e2: "cpu_only ?e2" "calls ?e2 = calls e @ (new @ [Transcribe ''cpu''])"
    using e1 by (simp_all add: cpu_only_def)
  show ?thesis
  proof (cases "transcribe_body w e1 (length (calls e1)) m chunk")
    case (Inr r)
    with \<open>enter_try w e chunk = Inr p\<close> p e2 e1 show ?thesis
      by (simp add: transcribe_chunk_def Let_def)
  next
    case (Inl error_msg)
    show ?thesis
    proof (cases "backend_fault error_msg")
      case False
      with Inl \<open>enter_try w e chunk = Inr p\<close> p e2 e1 show ?thesis
        by (simp add: transcribe_chunk_def Let_def)
    next
      case True
      have "calls (fallback_to_cpu w ?e2) = calls e @ (new @ [Transcribe ''cpu'', Construct ''cpu'' ''int8''])"
        using fallback_to_cpu_spec [of w ?e2] e2 by simp
      moreover have "\<forall>c \<in> set (new @ [Transcribe ''cpu'', Construct ''cpu'' ''int8'']). call_device c = ''cpu''"
        using e1 by simp
      ultimately show ?thesis
        using True Inl \<open>enter_try w e chunk = Inr p\<close> p fallback_to_cpu_spec [of w ?e2]
        by (simp add: transcribe_chunk_def Let_def del: append.simps)
    qed
  qed
qed

lemma snd_transcribe_chunks_Cons:
  "snd (transcribe_chunks w e (chunk # chunks)) =
   snd (transcribe_chunks w (snd (transcribe_chunk w e chunk)) chunks)"
  by (simp split: prod.splits)

lemma transcribe_chunks_cpu:
  assumes "cpu_only e"
  shows "cpu_only (snd (transcribe_chunks w e chunks))
     \<and> (\<exists>new. calls (snd (transcribe_chunks w e chunks)) = calls e @ new
            \<and> (\<forall>c \<in> set new. call_device c = ''cpu''))"
  using assms
proof (induction chunks arbitrary: e)
  case Nil
  then show ?case by simp
next
  case (Cons chunk chunks)
  obtain r e' where one: "transcribe_chunk w e chunk = (r, e')"
    by (cases "transcribe_chunk w e chunk")
  from transcribe_chunk_cpu [OF Cons.prems, of w chunk] one obtain new1 where
    e': "cpu_only e'" "calls e' = calls e @ new1" "\<forall>c \<in> set new1. call_device c = ''cpu''"
    by auto
  from Cons.IH [OF e'(1)] obtain new2 where
    rest: "cpu_only (snd (transcribe_chunks w e' chunks))"
      "calls (snd (transcribe_chunks w e' chunks)) = calls e' @ new2"
      "\<forall>c \<in> set new2. call_device c = ''cpu''"
    by auto
  have "calls (snd (transcribe_chunks w e (chunk # chunks))) = calls e @ (new1 @ new2)"
    using one rest(2) e'(2) by (simp add: snd_transcribe_chunks_Cons del: transcribe_chunks.simps)
  moreover have "\<forall>c \<in> set (new1 @ new2). call_device c = ''cpu''"
    using e'(3) rest(3) by auto
  moreover have "cpu_only (snd (transcribe_chunks w e (chunk # chunks)))"
    using one rest(1) by (simp add: snd_transcribe_chunks_Cons del: transcribe_chunks.simps)
  ultimately show ?case by blast
qed



lemma contains_iff_sublist: "contains needle hay \<longleftrightarrow> sublist needle hay"
  by (induction hay) (auto simp: sublist_Cons_right)

lemma contains_lower: "contains needle hay \<Longrightarrow> contains (lower needle) (lower hay)"
  unfolding contains_iff_sublist lower_def sublist_def by (metis map_append)

lemma lower_cuda: "lower ''cuda'' = ''cuda''" "lower ''cublas'' = ''cublas''"
  by code_simp+

lemma literal_fault: "contains ''cuda'' msg \<or> contains ''cublas'' msg \<Longrightarrow> backend_fault msg"
  using contains_lower [of "''cuda''" msg] contains_lower [of "''cublas''" msg]
  by (auto simp: backend_fault_def lower_cuda)

lemma no_backend_fault_division: "\<not> backend_fault ''division by zero''"
  by code_simp

lemma collect_texts_eq: "collect_texts segs = filter (\<lambda>t. t \<noteq> []) (map strip segs)"
  by (induction segs) (simp_all add: Let_def)

lemma strip_examples: "strip '' Hello  '' = ''Hello''" "strip ''  '' = []"
  by code_simp+

lemma join_example: "join '' '' (collect_texts [''Hello'', [], '' world '']) = ''Hello world''"
  by code_simp

text \<open>
  Claim C1. Take a call that reaches the \<^verbatim>\<open>try\<close> block and in which the speech-to-text library
  raises an exception whose lower-cased message contains \<^verbatim>\<open>cublas\<close> or \<^verbatim>\<open>cuda\<close>. The call
  returns \<^verbatim>\<open>None\<close>; it has logged the failed inference and one construction of a CPU model;
  it leaves the engine on the CPU backend with compute type \<^verbatim>\<open>int8\<close>; and after any further
  calls, in any world, the engine is still on the CPU backend and every backend call made
  since was on the CPU. \<^verbatim>\<open>transcribe_chunk\<close> has no exceptional result: every \<^verbatim>\<open>raise\<close> of
  the source is a branch that ends in a returned value.
\<close>

theorem backend_fault_falls_back_to_cpu:
  assumes enter: "enter_try w e chunk = Inr (e1, m)"
    and raised: "transcribe w (length (calls e1)) m (data chunk) (language e1) = Raise msg"
    and fault: "backend_fault msg"
  shows "fst (transcribe_chunk w e chunk) = None
     \<and> cpu_only (snd (transcribe_chunk w e chunk))
     \<and> compute_type (snd (transcribe_chunk w e chunk)) = ''int8''
     \<and> calls (snd (transcribe_chunk w e chunk)) =
         calls e1 @ [Transcribe (wm_device m), Construct ''cpu'' ''int8'']
     \<and> (\<forall>w' chunks.
          cpu_only (snd (transcribe_chunks w' (snd (transcribe_chunk w e chunk)) chunks))
          \<and> (\<exists>new. calls (snd (transcribe_chunks w' (snd (transcribe_chunk w e chunk)) chunks)) =
                 calls (snd (transcribe_chunk w e chunk)) @ new
               \<and> (\<forall>c \<in> set new. call_device c = ''cpu'')))"
proof -
  let ?e2 = "e1\<lparr> calls := calls e1 @ [Transcribe (wm_device m)] \<rparr>"
  have body: "transcribe_body w e1 (length (calls e1)) m chunk = Inl msg"
    using raised by (simp add: transcribe_body_def)
  have res: "transcribe_chunk w e chunk = (None, fallback_to_cpu w ?e2)"
    using enter body fault by (simp add: transcribe_chunk_def Let_def)
  have cpu: "cpu_only (fallback_to_cpu w ?e2)"
    and ct: "compute_type (fallback_to_cpu w ?e2) = ''int8''"
    and cs: "calls (fallback_to_cpu w ?e2) = calls e1 @ [Transcribe (wm_device m), Construct ''cpu'' ''int8'']"
    using fallback_to_cpu_spec [of w ?e2] by simp_all
  have later: "cpu_only (snd (transcribe_chunks w' (fallback_to_cpu w ?e2) chunks))
          \<and> (\<exists>new. calls (snd (transcribe_chunks w' (fallback_to_cpu w ?e2) chunks)) =
                 calls (fallback_to_cpu w ?e2) @ new
               \<and> (\<forall>c \<in> set new. call_device c = ''cpu''))" for w' chunks
    by (rule transcribe_chunks_cpu [OF cpu])
  show ?thesis
    unfolding res fst_conv snd_conv using cpu ct cs later by blast
qed


lemma fallback_to_cpu_keeps:
  "language (fallback_to_cpu w e) = language e"
  "engine_sample_rate (fallback_to_cpu w e) = engine_sample_rate e"
  "on_transcript (fallback_to_cpu w e) = on_transcript e"
  by (simp_all add: fallback_to_cpu_def Let_def)

lemma load_model_keeps:
  "language (load_model w e) = language e"
  "engine_sample_rate (load_model w e) = engine_sample_rate e"
  "on_transcript (load_model w e) = on_transcript e"
  by (simp_all add: load_model_def Let_def fallback_to_cpu_keeps)

lemma enter_try_keeps:
  assumes "enter_try w e chunk = Inr (e1, m)"
  shows "language e1 = language e \<and> engine_sample_rate e1 = engine_sample_rate e
     \<and> on_transcript e1 = on_transcript e"
proof -
  obtain speech v where g: "contains_speech (hub_load w (length (calls e))) (vad_score w) (vad e) (data chunk) = (speech, v)"
    by (cases "contains_speech (hub_load w (length (calls e))) (vad_score w) (vad e) (data chunk)")
  from assms g have "e1 = load_model w (e\<lparr> vad := v \<rparr>)"
    by (auto simp: enter_try_def Let_def split: if_splits option.splits)
  then show ?thesis by (simp add: load_model_keeps)
qed

text \<open>
  Claim C7. Take a call that reaches the \<^verbatim>\<open>try\<close> block and in which the speech-to-text library
  yields the fragments \<open>segments\<close>. If the call returns a segment, its text is the stripped,
  non-empty fragments joined by single spaces. If no fragment is non-empty after stripping,
  the call returns \<^verbatim>\<open>None\<close>. If some fragment is, the sample rate is not zero and the callback,
  if any, does not raise, the call does return such a segment, with the chunk's source and
  timestamp.
\<close>

theorem fragments_are_stripped_and_joined:
  assumes enter: "enter_try w e chunk = Inr (e1, m)"
    and frags: "transcribe w (length (calls e1)) m (data chunk) (language e) = Fragments segments"
  shows "(\<forall>seg. fst (transcribe_chunk w e chunk) = Some seg \<longrightarrow>
            text seg = join '' '' (filter (\<lambda>t. t \<noteq> []) (map strip segments)))
     \<and> (filter (\<lambda>t. t \<noteq> []) (map strip segments) = [] \<longrightarrow>
            fst (transcribe_chunk w e chunk) = None)
     \<and> (filter (\<lambda>t. t \<noteq> []) (map strip segments) \<noteq> [] \<and> engine_sample_rate e \<noteq> 0
          \<and> (\<forall>callback seg. on_transcript e = Some callback \<longrightarrow> callback seg = None) \<longrightarrow>
            (\<exists>seg. fst (transcribe_chunk w e chunk) = Some seg
               \<and> text seg = join '' '' (filter (\<lambda>t. t \<noteq> []) (map strip segments))
               \<and> speaker seg = source chunk \<and> seg_timestamp seg = timestamp chunk))"
proof -
  let ?texts = "filter (\<lambda>t. t \<noteq> []) (map strip segments)"
  let ?result = "\<lparr> speaker = source chunk, text = join '' '' ?texts,
                    seg_timestamp = timestamp chunk,
                    duration = of_nat (length (data chunk)) / of_int (engine_sample_rate e) \<rparr>"
  from enter_try_keeps [OF enter] have keep: "language e1 = language e"
    "engine_sample_rate e1 = engine_sample_rate e" "on_transcript e1 = on_transcript e"
    by simp_all
  have fr: "transcribe w (length (calls e1)) m (data chunk) (language e1) = Fragments segments"
    using frags keep by simp
  have res: "fst (transcribe_chunk w e chunk) =
      (case transcribe_body w e1 (length (calls e1)) m chunk of Inl msg \<Rightarrow> None | Inr r \<Rightarrow> r)"
    using enter by (simp add: transcribe_chunk_def Let_def split: sum.splits)
  have body: "transcribe_body w e1 (length (calls e1)) m chunk =
      (if ?texts = [] then Inr None
       else if engine_sample_rate e = 0 then Inl ''division by zero''
       else case on_transcript e of
              None \<Rightarrow> Inr (Some ?result)
            | Some callback \<Rightarrow>
                (case callback ?result of Some msg \<Rightarrow> Inl msg | None \<Rightarrow> Inr (Some ?result)))"
    using fr keep by (simp add: transcribe_body_def collect_texts_eq Let_def)
  have "\<forall>seg. fst (transcribe_chunk w e chunk) = Some seg \<longrightarrow> text seg = join '' '' ?texts"
    unfolding res body by (auto split: option.splits if_splits)
  moreover have "?texts = [] \<longrightarrow> fst (transcribe_chunk w e chunk) = None"
    unfolding res body by simp
  moreover have "?texts \<noteq> [] \<and> engine_sample_rate e \<noteq> 0
          \<and> (\<forall>callback seg. on_transcript e = Some callback \<longrightarrow> callback seg = None) \<longrightarrow>
            (\<exists>seg. fst (transcribe_chunk w e chunk) = Some seg
               \<and> text seg = join '' '' ?texts
               \<and> speaker seg = source chunk \<and> seg_timestamp seg = timestamp chunk)"
    unfolding res body by (auto split: option.splits)
  ultimately show ?thesis by blast
qed



lemma world0_simps:
  "hub_load world0 k = None"
  "whisper_model world0 k n d c = True"
  "transcribe world0 k cuda_model samples lang = Raise ''CUDA error: out of memory''"
  "transcribe world0 k cpu_model [] lang = Fragments ['' '', '''']"
  "transcribe world0 k cpu_model (x # xs) lang = Fragments [''Hello'', '''', ''world'']"
  by (simp_all add: world0_def cuda_model_def cpu_model_def)

lemma engine0_simps:
  "model_name engine0 = ''large-v3''" "device engine0 = ''cuda''"
  "compute_type engine0 = ''float16''" "language engine0 = ''ja''"
  "engine_sample_rate engine0 = 16000" "model engine0 = None"
  "vad_model (vad engine0) = None" "on_transcript engine0 = None" "calls engine0 = []"
  by (simp_all add: engine0_def)

lemma engine_cpu_simps:
  "model_name engine_cpu = ''large-v3''" "device engine_cpu = ''cpu''"
  "compute_type engine_cpu = ''int8''" "language engine_cpu = ''ja''"
  "engine_sample_rate engine_cpu = 16000" "model engine_cpu = Some cpu_model"
  "vad_model (vad engine_cpu) = None" "on_transcript engine_cpu = None"
  "calls engine_cpu = [Construct ''cuda'' ''float16'', Transcribe ''cuda'', Construct ''cpu'' ''int8'']"
  by (simp_all add: engine_cpu_def engine0_def)

lemma chunk_empty_simps: "source chunk_empty = ''target''" "data chunk_empty = []" "timestamp chunk_empty = 8"
  by (simp_all add: chunk_empty_def)

lemma chunk0_simps: "source chunk0 = ''you''" "data chunk0 = [0, 0, 0, 0]" "timestamp chunk0 = 7"
  by (simp_all add: chunk0_def)

lemma enter_try_engine0: "enter_try world0 engine0 chunk0 =
    Inr (engine0 \<lparr> model := Some cuda_model, calls := [Construct ''cuda'' ''float16''] \<rparr>, cuda_model)"
  by (simp add: enter_try_def contains_speech_def vad_load_model_def world0_simps engine0_simps
      load_model_def Let_def)
     (simp add: engine0_def cuda_model_def)

lemma backend_fault_cuda_message: "backend_fault ''CUDA error: out of memory''"
  by code_simp

lemma transcribe_chunk_engine0: "transcribe_chunk world0 engine0 chunk0 = (None, engine_cpu)"
  by (simp add: transcribe_chunk_def enter_try_engine0 transcribe_body_def world0_simps backend_fault_cuda_message
        fallback_to_cpu_def Let_def engine0_simps)
     (simp add: engine_cpu_def engine0_def cuda_model_def cpu_model_def)

lemma collect_texts_hello: "collect_texts [''Hello'', '''', ''world''] = [''Hello'', ''world'']"
  by code_simp

lemma enter_try_engine_cpu: "enter_try world0 engine_cpu chunk0 = Inr (engine_cpu, cpu_model)"
  by (simp add: enter_try_def contains_speech_def vad_load_model_def world0_simps engine_cpu_simps
      load_model_def Let_def)

lemma transcribe_chunk_engine_cpu: "transcribe_chunk world0 engine_cpu chunk0 =
    (Some \<lparr> speaker = ''you'', text = ''Hello world'', seg_timestamp = 7, duration = 1 / 4000 \<rparr>,
     engine_cpu \<lparr> calls := calls engine_cpu @ [Transcribe ''cpu''] \<rparr>)"
  by (simp add: transcribe_chunk_def enter_try_engine_cpu transcribe_body_def Let_def world0_simps
        collect_texts_hello engine_cpu_simps chunk0_simps del: collect_texts.simps)
     (simp add: cpu_model_def)


lemma collect_texts_blank: "collect_texts ['' '', ''''] = []"
  by code_simp

lemma enter_try_chunk_empty: "enter_try world0 engine_cpu chunk_empty = Inr (engine_cpu, cpu_model)"
  by (simp add: enter_try_def contains_speech_def vad_load_model_def world0_simps engine_cpu_simps
      load_model_def Let_def)

lemma transcribe_chunk_chunk_empty: "fst (transcribe_chunk world0 engine_cpu chunk_empty) = None"
  by (simp add: transcribe_chunk_def enter_try_chunk_empty transcribe_body_def Let_def world0_simps
        collect_texts_blank engine_cpu_simps chunk_empty_simps del: collect_texts.simps)

theorem backend_fault_falls_back_to_cpu_witness:
  "enter_try world0 engine0 chunk0 =
     Inr (engine0 \<lparr> model := Some cuda_model, calls := [Construct ''cuda'' ''float16''] \<rparr>, cuda_model)
   \<and> transcribe world0 1 cuda_model (data chunk0) ''ja'' = Raise ''CUDA error: out of memory''
   \<and> backend_fault ''CUDA error: out of memory''
   \<and> transcribe_chunk world0 engine0 chunk0 = (None, engine_cpu)
   \<and> cpu_only engine_cpu
   \<and> calls engine_cpu = [Construct ''cuda'' ''float16'', Transcribe ''cuda'', Construct ''cpu'' ''int8'']
   \<and> calls (snd (transcribe_chunks world0 engine_cpu [chunk0])) = calls engine_cpu @ [Transcribe ''cpu'']"
proof -
  let ?e1 = "engine0 \<lparr> model := Some cuda_model, calls := [Construct ''cuda'' ''float16''] \<rparr>"
  have raised: "transcribe world0 (length (calls ?e1)) cuda_model (data chunk0) (language ?e1)
      = Raise ''CUDA error: out of memory''"
    by (simp add: world0_simps)
  have later: "calls (snd (transcribe_chunks world0 engine_cpu [chunk0])) = calls engine_cpu @ [Transcribe ''cpu'']"
    by (simp add: transcribe_chunk_engine_cpu)
  from backend_fault_falls_back_to_cpu [OF enter_try_engine0 raised backend_fault_cuda_message]
  have "cpu_only (snd (transcribe_chunk world0 engine0 chunk0))"
    by blast
  then show ?thesis
    using enter_try_engine0 backend_fault_cuda_message transcribe_chunk_engine0 later by (simp add: world0_simps engine_cpu_simps)
qed

theorem fragments_are_stripped_and_joined_witness:
  "enter_try world0 engine_cpu chunk0 = Inr (engine_cpu, cpu_model)
   \<and> transcribe world0 (length (calls engine_cpu)) cpu_model (data chunk0) (language engine_cpu)
       = Fragments [''Hello'', '''', ''world'']
   \<and> filter (\<lambda>t. t \<noteq> []) (map strip [''Hello'', '''', ''world'']) = [''Hello'', ''world'']
   \<and> engine_sample_rate engine_cpu = 16000
   \<and> on_transcript engine_cpu = None
   \<and> fst (transcribe_chunk world0 engine_cpu chunk0)
       = Some \<lparr> speaker = ''you'', text = ''Hello world'', seg_timestamp = 7, duration = 1 / 4000 \<rparr>
   \<and> enter_try world0 engine_cpu chunk_empty = Inr (engine_cpu, cpu_model)
   \<and> transcribe world0 (length (calls engine_cpu)) cpu_model (data chunk_empty) (language engine_cpu)
       = Fragments ['' '', '''']
   \<and> filter (\<lambda>t. t \<noteq> []) (map strip ['' '', '''']) = []
   \<and> fst (transcribe_chunk world0 engine_cpu chunk_empty) = None"
proof -
  have frags: "transcribe world0 (length (calls engine_cpu)) cpu_model (data chunk0) (language engine_cpu)
       = Fragments [''Hello'', '''', ''world'']"
    by (simp add: world0_simps chunk0_simps)
  have blank: "transcribe world0 (length (calls engine_cpu)) cpu_model (data chunk_empty) (language engine_cpu)
       = Fragments ['' '', '''']"
    by (simp add: world0_simps chunk_empty_simps)
  have texts: "filter (\<lambda>t. t \<noteq> []) (map strip [''Hello'', '''', ''world'']) = [''Hello'', ''world'']"
    using collect_texts_hello by (simp only: collect_texts_eq)
  have no_texts: "filter (\<lambda>t. t \<noteq> []) (map strip ['' '', '''']) = []"
    using collect_texts_blank by (simp only: collect_texts_eq)
  have ok: "engine_sample_rate engine_cpu \<noteq> 0"
    "\<forall>callback seg. on_transcript engine_cpu = Some callback \<longrightarrow> callback seg = None"
    by (simp_all add: engine_cpu_simps)
  from fragments_are_stripped_and_joined [OF enter_try_engine_cpu frags] texts ok
  obtain seg where seg: "fst (transcribe_chunk world0 engine_cpu chunk0) = Some seg"
    "text seg = join '' '' [''Hello'', ''world'']"
    by auto
  from fragments_are_stripped_and_joined [OF enter_try_chunk_empty blank] no_texts
  have none: "fst (transcribe_chunk world0 engine_cpu chunk_empty) = None"
    by simp
  show ?thesis
    using enter_try_engine_cpu frags texts enter_try_chunk_empty blank no_texts none transcribe_chunk_engine_cpu
    by (simp add: engine_cpu_simps)
qed

section \<open>Properties of the transcript log\<close>


lemma isspace_LF: "isspace LF" and isspace_CR: "isspace CR"
  by (simp_all add: isspace_def LF_def CR_def)

lemma LF_neq_CR: "LF \<noteq> CR" "CR \<noteq> LF"
  by (simp_all add: LF_def CR_def)

lemma strip_append_space:
  assumes "isspace c"
  shows "strip (s @ [c]) = strip s"
proof (cases "\<forall>x \<in> set s. isspace x")
  case True
  then have "dropWhile isspace s = []"
    by (simp add: dropWhile_eq_Nil_conv)
  moreover from True assms have "dropWhile isspace (s @ [c]) = []"
    by (simp add: dropWhile_eq_Nil_conv)
  ultimately show ?thesis by (simp only: strip_def)
next
  case False
  then have "dropWhile isspace (s @ [c]) = dropWhile isspace s @ [c]"
    by (auto simp: dropWhile_append1)
  then show ?thesis using assms by (simp add: strip_def)
qed

lemma write_text_plain:
  "LF \<notin> set s \<Longrightarrow> write_text sep s = s"
  by (induction s) (auto simp: write_text_def)

lemma write_text_line:
  "LF \<notin> set s \<Longrightarrow> write_text sep (s @ [LF]) = s @ sep"
  using write_text_plain [of s sep] by (simp add: write_text_def)

lemma readlines_line_LF:
  assumes "LF \<notin> set s" "CR \<notin> set s"
  shows "readlines (s @ LF # rest) = (s @ [LF]) # readlines rest"
  using assms by (induction s) (auto simp: LF_neq_CR)

lemma readlines_line_CRLF:
  assumes "LF \<notin> set s" "CR \<notin> set s"
  shows "readlines (s @ CR # LF # rest) = (s @ [LF]) # readlines rest"
  using assms by (induction s) (auto simp: LF_neq_CR)

lemma readlines_line:
  assumes "LF \<notin> set s" "CR \<notin> set s" and "sep = [LF] \<or> sep = [CR, LF]"
  shows "readlines (s @ sep @ rest) = (s @ [LF]) # readlines rest"
  using assms readlines_line_LF [of s rest] readlines_line_CRLF [of s rest] by auto



lemma add_transcript_no_session:
  assumes "current_session mgr = None"
  shows "add_transcript io spk txt ts (mgr, d) =
     ((mgr\<lparr> transcript_log := transcript_log mgr @
          [\<lparr> entry_speaker = spk, entry_text = txt, entry_timestamp = ts \<rparr>] \<rparr>, d), None)"
  using assms by (simp add: add_transcript_def Let_def)

lemma add_transcript_session:
  assumes "current_session mgr = Some session" and "is_dir d (session_id session)"
  shows "add_transcript io spk txt ts (mgr, d) =
     ((mgr\<lparr> transcript_log := transcript_log mgr @
            [\<lparr> entry_speaker = spk, entry_text = txt, entry_timestamp = ts \<rparr>],
          current_session := Some (session\<lparr> updated_at := now_iso io (length (transcript_log mgr)) \<rparr>) \<rparr>,
       d\<lparr> files := (files d)
            ((session_id session, ''transcript.jsonl'') \<mapsto>
               (case files d (session_id session, ''transcript.jsonl'') of None \<Rightarrow> [] | Some c \<Rightarrow> c) @
               write_text (linesep io)
                 (dumps io \<lparr> entry_speaker = spk, entry_text = txt, entry_timestamp = ts \<rparr> @ [LF]),
             (session_id session, ''metadata.json'') \<mapsto>
               write_text (linesep io)
                 (dump_metadata io (session\<lparr> updated_at := now_iso io (length (transcript_log mgr)) \<rparr>))) \<rparr>),
      None)"
  using assms
  by (simp add: add_transcript_def append_to_log_def update_timestamp_def save_metadata_def Let_def)

lemma add_transcripts_session:
  assumes "current_session mgr = Some session" and "is_dir d (session_id session)"
    and "\<forall>e \<in> set es. LF \<notin> set (dumps io e)"
  shows "\<exists>mgr' d' session'. add_transcripts io es (mgr, d) = ((mgr', d'), None)
     \<and> transcript_log mgr' = transcript_log mgr @ es
     \<and> current_session mgr' = Some session' \<and> session_id session' = session_id session
     \<and> is_dir d' = is_dir d
     \<and> (case files d' (session_id session, ''transcript.jsonl'') of None \<Rightarrow> [] | Some c \<Rightarrow> c) =
         (case files d (session_id session, ''transcript.jsonl'') of None \<Rightarrow> [] | Some c \<Rightarrow> c) @
           concat (map (\<lambda>e. dumps io e @ linesep io) es)"
  using assms
proof (induction es arbitrary: mgr d session)
  case Nil
  then show ?case by simp
next
  case (Cons e es)
  let ?entry = "\<lparr> entry_speaker = entry_speaker e, entry_text = entry_text e,
                   entry_timestamp = entry_timestamp e \<rparr>"
  have entry: "?entry = e" by simp
  let ?session1 = "session\<lparr> updated_at := now_iso io (length (transcript_log mgr)) \<rparr>"
  let ?mgr1 = "mgr\<lparr> transcript_log := transcript_log mgr @ [e], current_session := Some ?session1 \<rparr>"
  let ?old = "case files d (session_id session, ''transcript.jsonl'') of None \<Rightarrow> [] | Some c \<Rightarrow> c"
  let ?d1 = "d\<lparr> files := (files d)
            ((session_id session, ''transcript.jsonl'') \<mapsto> ?old @ write_text (linesep io) (dumps io e @ [LF]),
             (session_id session, ''metadata.json'') \<mapsto> write_text (linesep io) (dump_metadata io ?session1)) \<rparr>"
  have one: "add_transcript io (entry_speaker e) (entry_text e) (entry_timestamp e) (mgr, d)
      = ((?mgr1, ?d1), None)"
    using add_transcript_session [OF Cons.prems(1,2), of io "entry_speaker e" "entry_text e" "entry_timestamp e"]
    by (simp only: entry)
  have line: "write_text (linesep io) (dumps io e @ [LF]) = dumps io e @ linesep io"
    using Cons.prems(3) by (simp add: write_text_line)
  have s1: "current_session ?mgr1 = Some ?session1" by simp
  have d1: "is_dir ?d1 (session_id ?session1)" using Cons.prems(2) by simp
  have c1: "\<forall>e \<in> set es. LF \<notin> set (dumps io e)" using Cons.prems(3) by simp
  from Cons.IH [OF s1 d1 c1] obtain mgr' d' session' where
    run: "add_transcripts io es (?mgr1, ?d1) = ((mgr', d'), None)"
    and log: "transcript_log mgr' = transcript_log ?mgr1 @ es"
    and cur: "current_session mgr' = Some session'" "session_id session' = session_id ?session1"
    and dirs: "is_dir d' = is_dir ?d1"
    and content: "(case files d' (session_id ?session1, ''transcript.jsonl'') of None \<Rightarrow> [] | Some c \<Rightarrow> c) =
         (case files ?d1 (session_id ?session1, ''transcript.jsonl'') of None \<Rightarrow> [] | Some c \<Rightarrow> c) @
           concat (map (\<lambda>e. dumps io e @ linesep io) es)"
    by blast
  have "add_transcripts io (e # es) (mgr, d) = ((mgr', d'), None)"
    using one run by simp
  moreover have "transcript_log mgr' = transcript_log mgr @ e # es"
    using log by simp
  moreover have "is_dir d' = is_dir d"
    using dirs by simp
  moreover have "(case files d' (session_id session, ''transcript.jsonl'') of None \<Rightarrow> [] | Some c \<Rightarrow> c) =
         ?old @ concat (map (\<lambda>e. dumps io e @ linesep io) (e # es))"
    using content line by simp
  ultimately show ?case using cur by auto
qed

lemma parse_written_lines:
  assumes "\<forall>e \<in> set es. loads io (strip (dumps io e)) = Some e \<and> strip (dumps io e) \<noteq> []
      \<and> LF \<notin> set (dumps io e) \<and> CR \<notin> set (dumps io e)"
    and "linesep io = [LF] \<or> linesep io = [CR, LF]"
  shows "parse_lines io (readlines (concat (map (\<lambda>e. dumps io e @ linesep io) es))) = Inr es"
  using assms(1)
proof (induction es)
  case Nil
  show ?case by simp
next
  case (Cons e es)
  let ?rest = "concat (map (\<lambda>e. dumps io e @ linesep io) es)"
  from Cons.prems have e: "loads io (strip (dumps io e)) = Some e" "strip (dumps io e) \<noteq> []"
    "LF \<notin> set (dumps io e)" "CR \<notin> set (dumps io e)"
    by simp_all
  have "readlines (dumps io e @ linesep io @ ?rest) = (dumps io e @ [LF]) # readlines ?rest"
    using e(3,4) assms(2) by (rule readlines_line)
  moreover have "strip (dumps io e @ [LF]) = strip (dumps io e)"
    using isspace_LF by (rule strip_append_space)
  moreover have "parse_lines io (readlines ?rest) = Inr es"
    using Cons by simp
  ultimately show ?case using e(1,2) by (simp add: Let_def)
qed



lemma load_transcript_content:
  "load_transcript io d sid =
     parse_lines io (readlines (case files d (sid, ''transcript.jsonl'') of None \<Rightarrow> [] | Some c \<Rightarrow> c))"
  by (simp add: load_transcript_def split: option.splits)

text \<open>
  Claim C8. Take a session that is current, whose directory exists and whose transcript file
  is absent or empty, and entries that the JSON codec writes on one line (no line break inside,
  not blank) and reads back as they were. Appending the entries one after the other raises
  nothing, and \<^verbatim>\<open>_load_transcript\<close> then returns exactly these entries, in the order of the
  appends; the log in memory has grown by the same entries. Equal entries have equal text
  fields. This holds for the line separator of POSIX and of Windows.
\<close>

theorem transcript_log_round_trip:
  assumes session: "current_session mgr = Some session" "is_dir d (session_id session)"
    and fresh: "files d (session_id session, ''transcript.jsonl'') = None
        \<or> files d (session_id session, ''transcript.jsonl'') = Some []"
    and codec: "\<forall>e \<in> set es. loads io (strip (dumps io e)) = Some e \<and> strip (dumps io e) \<noteq> []
        \<and> LF \<notin> set (dumps io e) \<and> CR \<notin> set (dumps io e)"
    and sep: "linesep io = [LF] \<or> linesep io = [CR, LF]"
  shows "\<exists>mgr' d'. add_transcripts io es (mgr, d) = ((mgr', d'), None)
     \<and> load_transcript io d' (session_id session) = Inr es
     \<and> transcript_log mgr' = transcript_log mgr @ es"
proof -
  from codec have plain: "\<forall>e \<in> set es. LF \<notin> set (dumps io e)" by simp
  from add_transcripts_session [OF session plain] obtain mgr' d' where
    run: "add_transcripts io es (mgr, d) = ((mgr', d'), None)"
    and log: "transcript_log mgr' = transcript_log mgr @ es"
    and content: "(case files d' (session_id session, ''transcript.jsonl'') of None \<Rightarrow> [] | Some c \<Rightarrow> c) =
         (case files d (session_id session, ''transcript.jsonl'') of None \<Rightarrow> [] | Some c \<Rightarrow> c) @
           concat (map (\<lambda>e. dumps io e @ linesep io) es)"
    by blast
  from fresh have "(case files d (session_id session, ''transcript.jsonl'') of None \<Rightarrow> [] | Some c \<Rightarrow> c) = []"
    by auto
  with content have "load_transcript io d' (session_id session) =
      parse_lines io (readlines (concat (map (\<lambda>e. dumps io e @ linesep io) es)))"
    by (simp add: load_transcript_content)
  also have "\<dots> = Inr es"
    using codec sep by (rule parse_written_lines)
  finally show ?thesis using run log by blast
qed

text \<open>
  Claim C10. Without a current session \<^verbatim>\<open>add_transcript\<close> appends the entry to the log in
  memory and returns with the disk and the session as they were. With a current session whose
  directory exists it appends the entry to the log in memory, appends the one line of that
  entry to the session's \<^verbatim>\<open>transcript.jsonl\<close>, and changes no other file than the session's
  \<^verbatim>\<open>metadata.json\<close>.
\<close>

theorem add_transcript_frame:
  "(current_session mgr = None \<longrightarrow>
      add_transcript io spk txt ts (mgr, d) =
        ((mgr\<lparr> transcript_log := transcript_log mgr @
             [\<lparr> entry_speaker = spk, entry_text = txt, entry_timestamp = ts \<rparr>] \<rparr>, d), None))
   \<and> (\<forall>session. current_session mgr = Some session \<and> is_dir d (session_id session) \<longrightarrow>
        (\<exists>mgr' d'. add_transcript io spk txt ts (mgr, d) = ((mgr', d'), None)
           \<and> transcript_log mgr' = transcript_log mgr @
                [\<lparr> entry_speaker = spk, entry_text = txt, entry_timestamp = ts \<rparr>]
           \<and> files d' (session_id session, ''transcript.jsonl'') =
                Some ((case files d (session_id session, ''transcript.jsonl'') of
                         None \<Rightarrow> [] | Some c \<Rightarrow> c) @
                      write_text (linesep io)
                        (dumps io \<lparr> entry_speaker = spk, entry_text = txt, entry_timestamp = ts \<rparr> @ [LF]))
           \<and> (\<forall>p. p \<noteq> (session_id session, ''transcript.jsonl'')
                  \<and> p \<noteq> (session_id session, ''metadata.json'') \<longrightarrow> files d' p = files d p)
           \<and> is_dir d' = is_dir d))"
proof (intro conjI impI allI)
  assume "current_session mgr = None"
  then show "add_transcript io spk txt ts (mgr, d) =
        ((mgr\<lparr> transcript_log := transcript_log mgr @
             [\<lparr> entry_speaker = spk, entry_text = txt, entry_timestamp = ts \<rparr>] \<rparr>, d), None)"
    by (rule add_transcript_no_session)
next
  fix session
  assume "current_session mgr = Some session \<and> is_dir d (session_id session)"
  then have s: "current_session mgr = Some session" "is_dir d (session_id session)"
    by simp_all
  show "\<exists>mgr' d'. add_transcript io spk txt ts (mgr, d) = ((mgr', d'), None)
           \<and> transcript_log mgr' = transcript_log mgr @
                [\<lparr> entry_speaker = spk, entry_text = txt, entry_timestamp = ts \<rparr>]
           \<and> files d' (session_id session, ''transcript.jsonl'') =
                Some ((case files d (session_id session, ''transcript.jsonl'') of
                         None \<Rightarrow> [] | Some c \<Rightarrow> c) @
                      write_text (linesep io)
                        (dumps io \<lparr> entry_speaker = spk, entry_text = txt, entry_timestamp = ts \<rparr> @ [LF]))
           \<and> (\<forall>p. p \<noteq> (session_id session, ''transcript.jsonl'')
                  \<and> p \<noteq> (session_id session, ''metadata.json'') \<longrightarrow> files d' p = files d p)
           \<and> is_dir d' = is_dir d"
  proof -
    let ?entry = "\<lparr> entry_speaker = spk, entry_text = txt, entry_timestamp = ts \<rparr>"
    let ?session' = "session\<lparr> updated_at := now_iso io (length (transcript_log mgr)) \<rparr>"
    let ?mgr' = "mgr\<lparr> transcript_log := transcript_log mgr @ [?entry],
                     current_session := Some ?session' \<rparr>"
    let ?d' = "d\<lparr> files := (files d)
            ((session_id session, ''transcript.jsonl'') \<mapsto>
               (case files d (session_id session, ''transcript.jsonl'') of None \<Rightarrow> [] | Some c \<Rightarrow> c) @
               write_text (linesep io) (dumps io ?entry @ [LF]),
             (session_id session, ''metadata.json'') \<mapsto>
               write_text (linesep io) (dump_metadata io ?session')) \<rparr>"
    have run: "add_transcript io spk txt ts (mgr, d) = ((?mgr', ?d'), None)"
      by (rule add_transcript_session [OF s])
    show ?thesis
      by (intro exI [of _ ?mgr'] exI [of _ ?d'] conjI) (simp_all add: run)
  qed
qed



lemma platform0_simps:
  "dumps platform0 = dumps0" "linesep platform0 = [CR, LF]"
  "loads platform0 = map_of [(dumps0 entry1, entry1), (dumps0 entry2, entry2)]"
  by (simp_all add: platform0_def)

lemma dumps0_entries:
  "dumps0 entry1 = ''{speaker: you, text: Hello world, timestamp: 7.5}''"
  "dumps0 entry2 = ''{speaker: target, text:   good morning, timestamp: 9.5}''"
  by (simp_all add: dumps0_def entry1_def entry2_def)

lemma strip_dumped_lines:
  "strip ''{speaker: you, text: Hello world, timestamp: 7.5}'' =
     ''{speaker: you, text: Hello world, timestamp: 7.5}''"
  "strip ''{speaker: target, text:   good morning, timestamp: 9.5}'' =
     ''{speaker: target, text:   good morning, timestamp: 9.5}''"
  by code_simp+

lemma dumps0_single_line:
  "LF \<notin> set (dumps0 entry1)" "CR \<notin> set (dumps0 entry1)"
  "LF \<notin> set (dumps0 entry2)" "CR \<notin> set (dumps0 entry2)"
  unfolding dumps0_entries by (simp_all add: LF_def CR_def)

lemma platform0_codec:
  "\<forall>e \<in> set [entry1, entry2]. loads platform0 (strip (dumps platform0 e)) = Some e
      \<and> strip (dumps platform0 e) \<noteq> []
      \<and> LF \<notin> set (dumps platform0 e) \<and> CR \<notin> set (dumps platform0 e)"
  using dumps0_single_line by (simp add: platform0_simps dumps0_entries strip_dumped_lines)

theorem transcript_log_round_trip_witness:
  "current_session manager0 = Some session0
   \<and> is_dir disk0 (session_id session0)
   \<and> files disk0 (session_id session0, ''transcript.jsonl'') = None
   \<and> linesep platform0 = [CR, LF]
   \<and> strip (dumps platform0 entry1) = ''{speaker: you, text: Hello world, timestamp: 7.5}''
   \<and> loads platform0 ''{speaker: you, text: Hello world, timestamp: 7.5}'' = Some entry1
   \<and> (\<exists>mgr' d'. add_transcripts platform0 [entry1, entry2] (manager0, disk0) = ((mgr', d'), None)
         \<and> load_transcript platform0 d' (session_id session0) = Inr [entry1, entry2]
         \<and> map entry_text (transcript_log mgr') = [''Hello world'', ''  good morning''])"
proof -
  have session: "current_session manager0 = Some session0" "is_dir disk0 (session_id session0)"
    by (simp_all add: manager0_def disk0_def session0_def)
  have none: "files disk0 (session_id session0, ''transcript.jsonl'') = None"
    by (simp add: disk0_def)
  then have fresh: "files disk0 (session_id session0, ''transcript.jsonl'') = None
      \<or> files disk0 (session_id session0, ''transcript.jsonl'') = Some []"
    by simp
  have sep: "linesep platform0 = [LF] \<or> linesep platform0 = [CR, LF]"
    by (simp add: platform0_simps)
  from transcript_log_round_trip [OF session fresh platform0_codec sep]
  obtain mgr' d' where
    run: "add_transcripts platform0 [entry1, entry2] (manager0, disk0) = ((mgr', d'), None)"
    and load: "load_transcript platform0 d' (session_id session0) = Inr [entry1, entry2]"
    and log: "transcript_log mgr' = transcript_log manager0 @ [entry1, entry2]"
    by blast
  from log have texts: "map entry_text (transcript_log mgr') = [''Hello world'', ''  good morning'']"
    by (simp add: manager0_def entry1_def entry2_def)
  have line: "strip (dumps platform0 entry1) = ''{speaker: you, text: Hello world, timestamp: 7.5}''"
    by (simp add: platform0_simps dumps0_entries strip_dumped_lines)
  have decoded: "loads platform0 ''{speaker: you, text: Hello world, timestamp: 7.5}'' = Some entry1"
    by (simp add: platform0_simps dumps0_entries)
  from run load texts have "\<exists>mgr' d'. add_transcripts platform0 [entry1, entry2] (manager0, disk0) = ((mgr', d'), None)
         \<and> load_transcript platform0 d' (session_id session0) = Inr [entry1, entry2]
         \<and> map entry_text (transcript_log mgr') = [''Hello world'', ''  good morning'']"
    by (intro exI [of _ mgr'] exI [of _ d'] conjI)
  with session none line decoded show ?thesis
    by (simp add: platform0_simps)
qed

theorem add_transcript_frame_witness:
  "add_transcript platform0 ''you'' ''Hello world'' ''7.5''
      (manager0 \<lparr> current_session := None \<rparr>, disk0)
     = ((\<lparr> current_session = None, transcript_log = [entry1] \<rparr>, disk0), None)
   \<and> current_session manager0 = Some session0
   \<and> is_dir disk0 (session_id session0)
   \<and> (\<exists>mgr' d'. add_transcript platform0 ''you'' ''Hello world'' ''7.5'' (manager0, disk0) = ((mgr', d'), None)
        \<and> transcript_log mgr' = [entry1]
        \<and> files d' (''2024-05-01_093000'', ''transcript.jsonl'') =
             Some (''{speaker: you, text: Hello world, timestamp: 7.5}'' @ [CR, LF])
        \<and> files d' (''2024-05-01_093000'', ''ai_responses.jsonl'') = None)"
proof -
  have session: "current_session manager0 = Some session0 \<and> is_dir disk0 (session_id session0)"
    by (simp_all add: manager0_def disk0_def session0_def)
  have no_session: "current_session (manager0 \<lparr> current_session := None \<rparr>) = None"
    by simp
  from add_transcript_frame [of "manager0 \<lparr> current_session := None \<rparr>" platform0 "''you''"
      "''Hello world''" "''7.5''" disk0] no_session
  have a: "add_transcript platform0 ''you'' ''Hello world'' ''7.5''
      (manager0 \<lparr> current_session := None \<rparr>, disk0)
     = ((\<lparr> current_session = None, transcript_log = [entry1] \<rparr>, disk0), None)"
    by (simp add: manager0_def entry1_def)
  from add_transcript_frame [of manager0 platform0 "''you''" "''Hello world''" "''7.5''" disk0] session
  obtain mgr' d' where
    run: "add_transcript platform0 ''you'' ''Hello world'' ''7.5'' (manager0, disk0) = ((mgr', d'), None)"
    and log: "transcript_log mgr' = transcript_log manager0 @
        [\<lparr> entry_speaker = ''you'', entry_text = ''Hello world'', entry_timestamp = ''7.5'' \<rparr>]"
    and content: "files d' (session_id session0, ''transcript.jsonl'') =
        Some ((case files disk0 (session_id session0, ''transcript.jsonl'') of None \<Rightarrow> [] | Some c \<Rightarrow> c) @
          write_text (linesep platform0)
            (dumps platform0 \<lparr> entry_speaker = ''you'', entry_text = ''Hello world'',
                entry_timestamp = ''7.5'' \<rparr> @ [LF]))"
    and others: "\<forall>p. p \<noteq> (session_id session0, ''transcript.jsonl'')
        \<and> p \<noteq> (session_id session0, ''metadata.json'') \<longrightarrow> files d' p = files disk0 p"
    by blast
  have log': "transcript_log mgr' = [entry1]"
    using log by (simp add: manager0_def entry1_def)
  have content': "files d' (''2024-05-01_093000'', ''transcript.jsonl'') =
             Some (''{speaker: you, text: Hello world, timestamp: 7.5}'' @ [CR, LF])"
  proof -
    have "write_text [CR, LF] (dumps0 entry1 @ [LF]) = dumps0 entry1 @ [CR, LF]"
      using dumps0_single_line(1) by (rule write_text_line)
    then show ?thesis
      using content
      by (simp add: session0_def disk0_def platform0_simps entry1_def [symmetric] dumps0_entries)
  qed
  have others': "files d' (''2024-05-01_093000'', ''ai_responses.jsonl'') = None"
    using others by (simp add: session0_def disk0_def)
  from run log' content' others'
  have "\<exists>mgr' d'. add_transcript platform0 ''you'' ''Hello world'' ''7.5'' (manager0, disk0) = ((mgr', d'), None)
        \<and> transcript_log mgr' = [entry1]
        \<and> files d' (''2024-05-01_093000'', ''transcript.jsonl'') =
             Some (''{speaker: you, text: Hello world, timestamp: 7.5}'' @ [CR, LF])
        \<and> files d' (''2024-05-01_093000'', ''ai_responses.jsonl'') = None"
    by (intro exI [of _ mgr'] exI [of _ d'] conjI)
  with a session show ?thesis by simp
qed


section \<open>Properties of the lock\<close>


lemma count_list_update:
  "i < length xs \<Longrightarrow>
   count_list (xs[i := v]) y + (if xs ! i = y then 1 else 0) = count_list xs y + (if v = y then 1 else 0)"
proof (induction xs arbitrary: i)
  case Nil
  then show ?case by simp
next
  case (Cons x xs)
  show ?case
  proof (cases i)
    case 0
    then show ?thesis by simp
  next
    case (Suc k)
    with Cons.prems have "k < length xs" by simp
    from Cons.IH [OF this] Suc show ?thesis by (auto split: if_splits)
  qed
qed

lemma count_list_pos: "i < length xs \<Longrightarrow> xs ! i = y \<Longrightarrow> 0 < count_list xs y"
  by (metis count_list_0_iff nth_mem not_gr_zero)

lemma count_list_unique:
  assumes "count_list xs y \<le> 1" "i < length xs" "j < length xs" "xs ! i = y" "xs ! j = y"
  shows "i = j"
  using assms
proof (induction xs arbitrary: i j)
  case Nil
  then show ?case by simp
next
  case (Cons x xs)
  show ?case
  proof (cases i)
    case i0: 0
    show ?thesis
    proof (cases j)
      case 0
      with i0 show ?thesis by simp
    next
      case (Suc j')
      with Cons.prems i0 have "x = y" "j' < length xs" "xs ! j' = y" by simp_all
      then have "0 < count_list xs y" by (simp add: count_list_pos)
      with \<open>x = y\<close> Cons.prems(1) show ?thesis by simp
    qed
  next
    case (Suc i')
    show ?thesis
    proof (cases j)
      case 0
      with Cons.prems Suc have "x = y" "i' < length xs" "xs ! i' = y" by simp_all
      then have "0 < count_list xs y" by (simp add: count_list_pos)
      with \<open>x = y\<close> Cons.prems(1) show ?thesis by simp
    next
      case j: (Suc j')
      from Cons.prems(1) have "count_list xs y \<le> 1" by (simp split: if_splits)
      from Cons.IH [OF this, of i' j'] Cons.prems Suc j show ?thesis by simp
    qed
  qed
qed

lemma pool_step_invariant:
  assumes "pool_step s s'" and "lock_invariant s"
  shows "lock_invariant s' \<and> length (pcs s') = length (pcs s)"
  using assms
proof (cases rule: pool_step.cases)
  case (gate_speech i)
  with assms(2) count_list_update [of i "pcs s" AtLoad Invoking]
    count_list_update [of i "pcs s" AtLoad Building]
  show ?thesis by (simp add: lock_invariant_def move_def)
next
  case (gate_silence i)
  with assms(2) count_list_update [of i "pcs s" Returned Invoking]
    count_list_update [of i "pcs s" Returned Building]
  show ?thesis by (simp add: lock_invariant_def move_def)
next
  case (load_done i)
  with assms(2) count_list_update [of i "pcs s" AtLock Invoking]
    count_list_update [of i "pcs s" AtLock Building]
  show ?thesis by (simp add: lock_invariant_def move_def)
next
  case (load_failed i)
  with assms(2) count_list_update [of i "pcs s" Returned Invoking]
    count_list_update [of i "pcs s" Returned Building]
  show ?thesis by (simp add: lock_invariant_def move_def)
next
  case (acquire i)
  with assms(2) count_list_update [of i "pcs s" Invoking Invoking]
    count_list_update [of i "pcs s" Invoking Building]
  show ?thesis by (simp add: lock_invariant_def move_def)
next
  case (invoke_done i)
  with assms(2) count_list_update [of i "pcs s" Building Invoking]
    count_list_update [of i "pcs s" Building Building]
  show ?thesis by (auto simp: lock_invariant_def move_def split: if_splits)
next
  case (invoke_raise i)
  with assms(2) count_list_update [of i "pcs s" Handler Invoking]
    count_list_update [of i "pcs s" Handler Building]
  show ?thesis by (auto simp: lock_invariant_def move_def split: if_splits)
next
  case (build_done i)
  with assms(2) count_list_update [of i "pcs s" Returned Invoking]
    count_list_update [of i "pcs s" Returned Building]
  show ?thesis by (auto simp: lock_invariant_def move_def split: if_splits)
next
  case (build_raise i)
  with assms(2) count_list_update [of i "pcs s" Handler Invoking]
    count_list_update [of i "pcs s" Handler Building]
  show ?thesis by (auto simp: lock_invariant_def move_def split: if_splits)
next
  case (handled i)
  with assms(2) count_list_update [of i "pcs s" Returned Invoking]
    count_list_update [of i "pcs s" Returned Building]
  show ?thesis by (simp add: lock_invariant_def move_def)
qed

lemma count_list_replicate: "count_list (replicate n x) y = (if x = y then n else 0)"
  by (induction n) auto

lemma reachable_invariant:
  "reachable n s \<Longrightarrow> lock_invariant s \<and> length (pcs s) = n"
proof (induction rule: reachable.induct)
  case (start n)
  show ?case by (simp add: lock_invariant_def count_list_replicate)
next
  case (after n s s')
  with pool_step_invariant [of s s'] show ?case by simp
qed

text \<open>
  Claim C9. In every state that any number of concurrent calls of \<^verbatim>\<open>transcribe_chunk\<close> on one
  engine can reach, at most one call is inside the call of the speech-to-text library: the
  number of calls in progress is at most one, two calls that are both there are the same
  call, and the high-water mark of that number never exceeds one.
\<close>

theorem at_most_one_inference_call:
  assumes "reachable n s"
  shows "high_water s \<le> 1 \<and> active s \<le> 1
     \<and> active s = count_list (pcs s) Invoking
     \<and> (\<forall>i j. i < n \<and> j < n \<and> pcs s ! i = Invoking \<and> pcs s ! j = Invoking \<longrightarrow> i = j)"
proof -
  from reachable_invariant [OF assms] have inv: "lock_invariant s" and len: "length (pcs s) = n"
    by simp_all
  from inv have one: "count_list (pcs s) Invoking \<le> 1"
    by (simp add: lock_invariant_def split: if_splits)
  from inv one have "high_water s \<le> 1" "active s \<le> 1" "active s = count_list (pcs s) Invoking"
    by (simp_all add: lock_invariant_def)
  moreover have "\<forall>i j. i < n \<and> j < n \<and> pcs s ! i = Invoking \<and> pcs s ! j = Invoking \<longrightarrow> i = j"
    using count_list_unique [OF one] len by blast
  ultimately show ?thesis by blast
qed


theorem at_most_one_inference_call_witness:
  "reachable 2 \<lparr> pcs = [Invoking, AtLock], locked = True, active = 1, high_water = 1 \<rparr>
   \<and> high_water \<lparr> pcs = [Invoking, AtLock], locked = True, active = 1, high_water = 1 \<rparr> = 1
   \<and> count_list [Invoking, AtLock] Invoking = 1"
proof -
  let ?s0 = "\<lparr> pcs = [AtGate, AtGate], locked = False, active = 0, high_water = 0 \<rparr>"
  let ?s1 = "\<lparr> pcs = [AtLoad, AtGate], locked = False, active = 0, high_water = 0 \<rparr>"
  let ?s2 = "\<lparr> pcs = [AtLock, AtGate], locked = False, active = 0, high_water = 0 \<rparr>"
  let ?s3 = "\<lparr> pcs = [Invoking, AtGate], locked = True, active = 1, high_water = 1 \<rparr>"
  let ?s4 = "\<lparr> pcs = [Invoking, AtLoad], locked = True, active = 1, high_water = 1 \<rparr>"
  let ?s5 = "\<lparr> pcs = [Invoking, AtLock], locked = True, active = 1, high_water = 1 \<rparr>"
  have r0: "reachable 2 ?s0"
    using reachable.start [of 2] by (simp add: numeral_2_eq_2)
  have "pool_step ?s0 ?s1"
    using pool_step.gate_speech [of 0 ?s0] by (simp add: move_def)
  with r0 have r1: "reachable 2 ?s1" by (rule reachable.after)
  have "pool_step ?s1 ?s2"
    using pool_step.load_done [of 0 ?s1] by (simp add: move_def)
  with r1 have r2: "reachable 2 ?s2" by (rule reachable.after)
  have "pool_step ?s2 ?s3"
    using pool_step.acquire [of 0 ?s2] by (simp add: move_def)
  with r2 have r3: "reachable 2 ?s3" by (rule reachable.after)
  have "pool_step ?s3 ?s4"
    using pool_step.gate_speech [of 1 ?s3] by (simp add: move_def)
  with r3 have r4: "reachable 2 ?s4" by (rule reachable.after)
  have "pool_step ?s4 ?s5"
    using pool_step.load_done [of 1 ?s4] by (simp add: move_def)
  with r4 have r5: "reachable 2 ?s5" by (rule reachable.after)
  from at_most_one_inference_call [OF r5] r5 show ?thesis by simp
qed

lemma lock_blocks_second_call:
  "\<not> pool_step \<lparr> pcs = [Invoking, AtLock], locked = True, active = 1, high_water = 1 \<rparr>
       \<lparr> pcs = [Invoking, Invoking], locked = True, active = 2, high_water = 2 \<rparr>"
  by (auto elim!: pool_step.cases simp: move_def nth_Cons split: nat.splits)

end
